theory Spec2Isabelle
  imports Main "HOL-Library.AList" "HOL-Library.Sublist"
begin

section \<open>JavaScript strings and plain objects\<close>

text \<open>
  Strings are character lists. \<open>split\<close> is \<^verbatim>\<open>String.prototype.split\<close> with a
  one-character separator: the empty string splits into one empty piece.
\<close>

fun split :: "char \<Rightarrow> string \<Rightarrow> string list" where
  "split c [] = [[]]"
| "split c (x # xs) =
     (if x = c then [] # split c xs
      else (case split c xs of [] \<Rightarrow> [[x]] | w # ws \<Rightarrow> (x # w) # ws))"

text \<open>\<^verbatim>\<open>Array.prototype.join\<close> on an array of strings.\<close>

fun join :: "string \<Rightarrow> string list \<Rightarrow> string" where
  "join sep [] = []"
| "join sep [x] = x"
| "join sep (x # y # ys) = x @ sep @ join sep (y # ys)"

text \<open>\<^verbatim>\<open>s.replace(/\/+/g, '/')\<close>: every run of slashes becomes one slash.\<close>

fun collapse_slashes :: "string \<Rightarrow> string" where
  "collapse_slashes (a # b # xs) =
     (if a = CHR ''/'' \<and> b = CHR ''/'' then collapse_slashes (b # xs)
      else a # collapse_slashes (b # xs))"
| "collapse_slashes xs = xs"

definition startsWith :: "string \<Rightarrow> char \<Rightarrow> bool" where
  "startsWith s c = (case s of [] \<Rightarrow> False | x # _ \<Rightarrow> x = c)"

definition endsWith :: "string \<Rightarrow> char \<Rightarrow> bool" where
  "endsWith s c = (case rev s of [] \<Rightarrow> False | x # _ \<Rightarrow> x = c)"

text \<open>
  A \<^verbatim>\<open>Record<string, string>\<close> is an association list in insertion order, one entry per
  key: assignment overwrites an entry in place or appends a new one, the spread
  \<^verbatim>\<open>{...a, ...b}\<close> assigns the entries of \<open>b\<close> onto a copy of \<open>a\<close>, and \<^verbatim>\<open>delete\<close> drops
  the entry. Keys are ordinary property names: the accessor \<^verbatim>\<open>__proto__\<close> of JavaScript
  objects is not modelled, and the order of the entries is never part of a result.
\<close>

type_synonym params = "(string \<times> string) list"

definition obj_set :: "string \<Rightarrow> string \<Rightarrow> params \<Rightarrow> params" where
  "obj_set k v obj = AList.update k v obj"

definition obj_spread :: "params \<Rightarrow> params \<Rightarrow> params" where
  "obj_spread a b = fold (\<lambda>(k, v). obj_set k v) b a"

definition obj_delete_keys :: "params \<Rightarrow> params \<Rightarrow> params" where
  "obj_delete_keys src obj = fold (\<lambda>(k, v). AList.delete k) src obj"

section \<open>Route matcher (router.ts)\<close>

datatype 'c RouteDef =
  RouteDef (path: string) (component: 'c) (children: "'c RouteDef list option")

text \<open>The \<^verbatim>\<open>for\<close> loop of \<^verbatim>\<open>_extractParams\<close>; \<^verbatim>\<open>pathParts[i]\<close> is undefined past the end.\<close>

fun extractLoop :: "string list \<Rightarrow> string list \<Rightarrow> params \<Rightarrow> params option" where
  "extractLoop [] pathParts ps = Some ps"
| "extractLoop (patternPart # rest) pathParts ps =
     (let pathPart = (case pathParts of [] \<Rightarrow> None | p # _ \<Rightarrow> Some p) in
      if startsWith patternPart CHR '':'' then
        (case pathPart of
           None \<Rightarrow> None
         | Some pp \<Rightarrow> extractLoop rest (tl pathParts) (obj_set (tl patternPart) pp ps))
      else if Some patternPart \<noteq> pathPart then None
      else extractLoop rest (tl pathParts) ps)"

definition extractParams :: "string \<Rightarrow> string \<Rightarrow> bool \<Rightarrow> params option" where
  "extractParams pattern pth partial =
     (let patternParts = filter (\<lambda>p. p \<noteq> []) (split CHR ''/'' pattern);
          pathParts = filter (\<lambda>p. p \<noteq> []) (split CHR ''/'' pth) in
      if \<not> partial \<and> length patternParts \<noteq> length pathParts then None
      else if partial \<and> length pathParts < length patternParts then None
      else (case extractLoop patternParts pathParts [] of
              None \<Rightarrow> None
            | Some ps \<Rightarrow>
                if partial \<and> length patternParts < length pathParts then
                  (let matchedPathSegment = join ''/'' (take (length patternParts) pathParts);
                       fullPathSegment =
                         join ''/'' (map (\<lambda>(p, pp). if startsWith p CHR '':'' then pp else p)
                                          (zip patternParts pathParts)) in
                   if matchedPathSegment \<noteq> fullPathSegment then None else Some ps)
                else if \<not> partial \<and> length patternParts \<noteq> length pathParts then None
                else Some ps))"

definition fullPathOf :: "string \<Rightarrow> string \<Rightarrow> string" where
  "fullPathOf parentPath p =
     (let fullPath = collapse_slashes (parentPath @ ''/'' @ p) in
      if fullPath \<noteq> ''/'' \<and> endsWith fullPath CHR ''/'' then butlast fullPath else fullPath)"

text \<open>
  \<^verbatim>\<open>findMatch\<close> of \<^verbatim>\<open>_matchRoute\<close>. The closure variables \<^verbatim>\<open>matched\<close> and \<^verbatim>\<open>params\<close> are
  passed in and returned with the result. \<^verbatim>\<open>route.children\<close> is truthy whenever the array
  is present, also when it is empty; so inside the branch for a route with children the test
  \<^verbatim>\<open>!route.children && fullPath === currentPath\<close> is never true and has no case here.
\<close>

fun findMatch ::
  "'c RouteDef list \<Rightarrow> string \<Rightarrow> string \<Rightarrow> 'c RouteDef list \<times> params
     \<Rightarrow> bool \<times> 'c RouteDef list \<times> params" where
  "findMatch [] currentPath parentPath (matched, ps) = (False, matched, ps)"
| "findMatch (RouteDef p c ch # routes) currentPath parentPath (matched, ps) =
     (let fullPath = fullPathOf parentPath p in
      case extractParams fullPath currentPath (ch \<noteq> None) of
        None \<Rightarrow> findMatch routes currentPath parentPath (matched, ps)
      | Some routeParams \<Rightarrow>
          (let matched1 = matched @ [RouteDef p c ch];
               ps1 = obj_spread ps routeParams in
           case ch of
             Some cs \<Rightarrow>
               (case findMatch cs currentPath fullPath (matched1, ps1) of
                  (True, st) \<Rightarrow> (True, st)
                | (False, matched2, ps2) \<Rightarrow>
                    findMatch routes currentPath parentPath
                      (butlast matched2, obj_delete_keys routeParams ps2))
           | None \<Rightarrow>
               if fullPath = currentPath then (True, matched1, ps1)
               else findMatch routes currentPath parentPath
                      (butlast matched1, obj_delete_keys routeParams ps1)))"

definition matchRoute :: "'c RouteDef list \<Rightarrow> string \<Rightarrow> 'c RouteDef list \<times> params" where
  "matchRoute routes pth = snd (findMatch routes pth [] ([], []))"

text \<open>
  The second copy of the router in the repository (the one with route transitions) differs
  in the childless branch only: a childless route whose parameters were extracted is the
  final match, with no comparison of \<^verbatim>\<open>fullPath\<close> against \<^verbatim>\<open>currentPath\<close>.
\<close>

fun findMatch_part_000 ::
  "'c RouteDef list \<Rightarrow> string \<Rightarrow> string \<Rightarrow> 'c RouteDef list \<times> params
     \<Rightarrow> bool \<times> 'c RouteDef list \<times> params" where
  "findMatch_part_000 [] currentPath parentPath (matched, ps) = (False, matched, ps)"
| "findMatch_part_000 (RouteDef p c ch # routes) currentPath parentPath (matched, ps) =
     (let fullPath = fullPathOf parentPath p in
      case extractParams fullPath currentPath (ch \<noteq> None) of
        None \<Rightarrow> findMatch_part_000 routes currentPath parentPath (matched, ps)
      | Some routeParams \<Rightarrow>
          (let matched1 = matched @ [RouteDef p c ch];
               ps1 = obj_spread ps routeParams in
           case ch of
             Some cs \<Rightarrow>
               (case findMatch_part_000 cs currentPath fullPath (matched1, ps1) of
                  (True, st) \<Rightarrow> (True, st)
                | (False, matched2, ps2) \<Rightarrow>
                    findMatch_part_000 routes currentPath parentPath
                      (butlast matched2, obj_delete_keys routeParams ps2))
           | None \<Rightarrow> (True, matched1, ps1)))"

definition matchRoute_part_000 ::
  "'c RouteDef list \<Rightarrow> string \<Rightarrow> 'c RouteDef list \<times> params" where
  "matchRoute_part_000 routes pth = snd (findMatch_part_000 routes pth [] ([], []))"

section \<open>Query parsing (router.ts)\<close>

datatype js_error = URIError

text \<open>
  \<^verbatim>\<open>const [key, value] = pair.split('=')\<close>: the first piece, and the second piece when there
  is one; \<^verbatim>\<open>value || ''\<close> turns a missing second piece into the empty string.
\<close>

definition pairKey :: "string \<Rightarrow> string" where
  "pairKey pair = (case split CHR ''='' pair of [] \<Rightarrow> [] | k # _ \<Rightarrow> k)"

definition pairValue :: "string \<Rightarrow> string" where
  "pairValue pair = (case split CHR ''='' pair of _ # v # _ \<Rightarrow> v | _ \<Rightarrow> [])"

text \<open>
  The \<^verbatim>\<open>forEach\<close> over the pairs of \<^verbatim>\<open>_getCurrentQuery\<close>. \<^verbatim>\<open>decodeURIComponent\<close> belongs to
  the platform and is the parameter \<open>dec\<close>; it yields \<open>None\<close> where the platform function
  throws a URIError, which then leaves the loop and the function.
\<close>

fun queryLoop :: "(string \<Rightarrow> string option) \<Rightarrow> string list \<Rightarrow> params \<Rightarrow> js_error + params" where
  "queryLoop dec [] query = Inr query"
| "queryLoop dec (pair # pairs) query =
     (if pairKey pair \<noteq> [] then
        (case dec (pairKey pair) of
           None \<Rightarrow> Inl URIError
         | Some k \<Rightarrow>
             (case dec (pairValue pair) of
                None \<Rightarrow> Inl URIError
              | Some v \<Rightarrow> queryLoop dec pairs (obj_set k v query)))
      else queryLoop dec pairs query)"

text \<open>\<^verbatim>\<open>_getCurrentQuery\<close>, on the value of \<^verbatim>\<open>window.location.hash\<close>.\<close>

definition getCurrentQuery :: "(string \<Rightarrow> string option) \<Rightarrow> string \<Rightarrow> js_error + params" where
  "getCurrentQuery dec location_hash =
     (let hash = drop 1 location_hash in
      case split CHR ''?'' hash of
        _ # queryPart # _ \<Rightarrow>
          if queryPart = [] then Inr [] else queryLoop dec (split CHR ''&'' queryPart) []
      | _ \<Rightarrow> Inr [])"

section \<open>Navigation (router.ts, \<^verbatim>\<open>_handleRouteChange\<close>)\<close>

text \<open>
  How a before-navigation hook uses its third argument: it does not call it, it calls
  \<^verbatim>\<open>next()\<close>, or it calls \<^verbatim>\<open>next(path)\<close>. The hook is a function of \<^verbatim>\<open>to\<close> and \<^verbatim>\<open>from\<close>.
\<close>

datatype next_call = NotCalled | Next | NextTo string

text \<open>
  The router with the values held by its four signals, and the two things of the window it
  uses: the location hash, and whether a \<^verbatim>\<open>hashchange\<close> event waits to be delivered.
\<close>

record 'c router =
  routes :: "'c RouteDef list"
  beforeEachHook :: "(string \<Rightarrow> string \<Rightarrow> next_call) option"
  location_hash :: string
  hashchange_pending :: bool
  currentRoute :: string
  matched :: "'c RouteDef list"
  params :: params
  query :: params

text \<open>\<^verbatim>\<open>hash.split('?')[0] || '/'\<close> on the hash without its first character.\<close>

definition getCurrentPath :: "string \<Rightarrow> string" where
  "getCurrentPath h =
     (case split CHR ''?'' (drop 1 h) of
        [] \<Rightarrow> ''/''
      | p # _ \<Rightarrow> if p = [] then ''/'' else p)"

text \<open>
  \<^verbatim>\<open>window.location.hash = path\<close>, for a path that the platform does not have to escape: the
  fragment is the path without a leading \<^verbatim>\<open>#\<close>, the hash reads as \<^verbatim>\<open>#\<close> and the fragment, or as
  the empty string when the fragment is empty, and a \<^verbatim>\<open>hashchange\<close> event is queued when the
  hash has changed.
\<close>

definition push :: "string \<Rightarrow> 'c router \<Rightarrow> 'c router" where
  "push p st =
     (let fragment = (if startsWith p CHR ''#'' then drop 1 p else p);
          h = (if fragment = [] then [] else CHR ''#'' # fragment)
      in st\<lparr>location_hash := h,
            hashchange_pending := (hashchange_pending st \<or> h \<noteq> location_hash st)\<rparr>)"

text \<open>
  The body of \<^verbatim>\<open>next\<close> when it proceeds: the four signals are written in turn; a URIError
  from \<^verbatim>\<open>_getCurrentQuery\<close> leaves with the first three written.
\<close>

definition proceed ::
  "(string \<Rightarrow> string option) \<Rightarrow> string \<Rightarrow> 'c router \<Rightarrow> js_error option \<times> 'c router" where
  "proceed dec newPath st =
     (case matchRoute (routes st) newPath of
        (m, ps) \<Rightarrow>
          (let st1 = st\<lparr>currentRoute := newPath, matched := m, params := ps\<rparr>
           in case getCurrentQuery dec (location_hash st) of
                Inl e \<Rightarrow> (Some e, st1)
              | Inr q \<Rightarrow> (None, st1\<lparr>query := q\<rparr>)))"

text \<open>\<^verbatim>\<open>_handleRouteChange\<close>; \<^verbatim>\<open>next(path)\<close> redirects when the path is not empty.\<close>

definition handleRouteChange ::
  "(string \<Rightarrow> string option) \<Rightarrow> 'c router \<Rightarrow> js_error option \<times> 'c router" where
  "handleRouteChange dec st =
     (let newPath = getCurrentPath (location_hash st);
          oldPath = currentRoute st
      in case beforeEachHook st of
           None \<Rightarrow> proceed dec newPath st
         | Some hook \<Rightarrow>
             (case hook newPath oldPath of
                NotCalled \<Rightarrow> (None, st)
              | Next \<Rightarrow> proceed dec newPath st
              | NextTo redirectPath \<Rightarrow>
                  if redirectPath \<noteq> [] then (None, push redirectPath st)
                  else proceed dec newPath st))"

text \<open>
  The window delivers the queued \<^verbatim>\<open>hashchange\<close> events to the listener of \<^verbatim>\<open>install\<close>, one
  after the other; an error thrown by the listener is reported and the delivery goes on. A
  hook can redirect back and forth for ever, so the delivery takes a budget of events and
  \<open>None\<close> means that events were still waiting when it was used up.
\<close>

fun deliver :: "nat \<Rightarrow> (string \<Rightarrow> string option) \<Rightarrow> 'c router \<Rightarrow> 'c router option" where
  "deliver 0 dec st = (if hashchange_pending st then None else Some st)"
| "deliver (Suc n) dec st =
     (if hashchange_pending st
      then deliver n dec (snd (handleRouteChange dec (st\<lparr>hashchange_pending := False\<rparr>)))
      else Some st)"

text \<open>
  Scenario: the routes \<^verbatim>\<open>/\<close>, \<^verbatim>\<open>/login\<close> and \<^verbatim>\<open>/admin\<close>, the router installed at \<^verbatim>\<open>/\<close>, with a hook;
  then the location is set to \<^verbatim>\<open>#/admin\<close> and the events are delivered. The first hook sends
  every navigation of an unauthenticated user to \<^verbatim>\<open>/login\<close>; the second one, as in the README,
  only a navigation to \<^verbatim>\<open>/admin\<close>; the last two never call \<^verbatim>\<open>next\<close> and always call \<^verbatim>\<open>next()\<close>.
\<close>

definition installed :: "(string \<Rightarrow> string \<Rightarrow> next_call) \<Rightarrow> string router" where
  "installed hook =
     \<lparr>routes = [RouteDef ''/'' ''Home'' None, RouteDef ''/login'' ''Login'' None,
                RouteDef ''/admin'' ''Admin'' None],
      beforeEachHook = Some hook,
      location_hash = [],
      hashchange_pending = False,
      currentRoute = ''/'',
      matched = [RouteDef ''/'' ''Home'' None],
      params = [],
      query = []\<rparr>"

definition always_login :: "string \<Rightarrow> string \<Rightarrow> next_call" where
  "always_login to from = NextTo ''/login''"

definition admin_to_login :: "string \<Rightarrow> string \<Rightarrow> next_call" where
  "admin_to_login to from = (if to = ''/admin'' then NextTo ''/login'' else Next)"

definition never_calls :: "string \<Rightarrow> string \<Rightarrow> next_call" where
  "never_calls to from = NotCalled"

definition always_next :: "string \<Rightarrow> string \<Rightarrow> next_call" where
  "always_next to from = Next"

definition visit_admin :: "(string \<Rightarrow> string \<Rightarrow> next_call) \<Rightarrow> string router option" where
  "visit_admin hook = deliver 10 Some (push ''/admin'' (installed hook))"

section \<open>Signals and effects (melodijs.ts, MelodiReactive)\<close>

subsection \<open>Values\<close>

text \<open>
  JavaScript values as far as \<^verbatim>\<open>write\<close> looks at them: the primitives, and objects and
  functions by reference. \<open>NaN\<close> is kept apart from the other numbers because \<^verbatim>\<open>===\<close> is not
  reflexive on it.
\<close>

datatype jsnum = NaN | Num int

datatype jsval =
    Undefined | Null | Boolean bool | Number jsnum | String string
  | Object nat | Function nat

fun typeof :: "jsval \<Rightarrow> string" where
  "typeof Undefined = ''undefined''"
| "typeof Null = ''object''"
| "typeof (Boolean b) = ''boolean''"
| "typeof (Number n) = ''number''"
| "typeof (String s) = ''string''"
| "typeof (Object r) = ''object''"
| "typeof (Function r) = ''function''"

text \<open>\<^verbatim>\<open>a === b\<close>.\<close>

fun strict_eq :: "jsval \<Rightarrow> jsval \<Rightarrow> bool" where
  "strict_eq (Number NaN) b = False"
| "strict_eq a (Number NaN) = False"
| "strict_eq a b = (a = b)"

text \<open>
  \<^verbatim>\<open>next === null || (typeof next !== 'object' && typeof next !== 'function')\<close>
\<close>

definition isPrimitive :: "jsval \<Rightarrow> bool" where
  "isPrimitive next =
     (strict_eq next Null \<or> (typeof next \<noteq> ''object'' \<and> typeof next \<noteq> ''function''))"

fun truthy :: "jsval \<Rightarrow> bool" where
  "truthy Undefined = False"
| "truthy Null = False"
| "truthy (Boolean b) = b"
| "truthy (Number NaN) = False"
| "truthy (Number (Num n)) = (n \<noteq> 0)"
| "truthy (String s) = (s \<noteq> [])"
| "truthy (Object r) = True"
| "truthy (Function r) = True"

subsection \<open>Callbacks\<close>

text \<open>
  The callback handed to \<^verbatim>\<open>createEffect\<close> is a program over the signals: it calls a
  signal's \<^verbatim>\<open>read\<close> or \<^verbatim>\<open>write\<close>, branches on a value it read, or creates a further effect.
  Signals and effects are named by their position in the order of creation.
  For \<^verbatim>\<open>createEffectWithCleanup\<close> the callback also returns a cleanup function or nothing.
\<close>

datatype cmd =
    Read nat
  | Write nat jsval
  | IfTruthy nat "cmd list" "cmd list"
  | CreateEffect "cmd list"
  | CreateEffectWithCleanup "cmd list" "cmd list option"

subsection \<open>State\<close>

text \<open>
  A signal is the closure pair of \<^verbatim>\<open>createSignal\<close>: the variable \<^verbatim>\<open>v\<close> and the
  \<^verbatim>\<open>Set\<close> of subscribers, kept in insertion order as \<^verbatim>\<open>Set.prototype.forEach\<close> visits it.
\<close>

record signal =
  v_held :: jsval
  subscribers :: "nat list"

text \<open>
  The closure \<^verbatim>\<open>effect\<close> of \<^verbatim>\<open>createEffect\<close> holds its callback; the closure \<^verbatim>\<open>execute\<close> of
  \<^verbatim>\<open>createEffectWithCleanup\<close> holds its callback, what the callback returns, and the
  variable \<^verbatim>\<open>cleanup\<close>.
\<close>

datatype closure =
    Effect "cmd list"
  | Execute "cmd list" "cmd list option" "cmd list option"

text \<open>
  The log is not part of the program: it records, in order, each start of an effect
  closure and each call of a signal's \<^verbatim>\<open>read\<close> together with the tracking context at the
  time of the call.
\<close>

datatype event = Ran nat | ReadBy "nat option" nat

record reactive =
  currentEffect :: "nat option"
  signals :: "signal list"
  closures :: "closure list"
  log :: "event list"

definition MelodiReactive :: reactive where
  "MelodiReactive = \<lparr>currentEffect = None, signals = [], closures = [], log = []\<rparr>"

text \<open>\<^verbatim>\<open>Set.prototype.add\<close>.\<close>

definition set_add :: "nat \<Rightarrow> nat list \<Rightarrow> nat list" where
  "set_add e xs = (if e \<in> set xs then xs else xs @ [e])"

definition createSignal :: "jsval \<Rightarrow> reactive \<Rightarrow> nat \<times> reactive" where
  "createSignal x st =
     (length (signals st),
      st\<lparr>signals := signals st @ [\<lparr>v_held = x, subscribers = []\<rparr>]\<rparr>)"

text \<open>
  \<^verbatim>\<open>read\<close>: subscribe the current effect, if there is one, and return the value. A callback
  that names a signal which was never created has no meaning (\<open>None\<close>).
\<close>

definition read :: "nat \<Rightarrow> reactive \<Rightarrow> (jsval \<times> reactive) option" where
  "read i st =
     (if i < length (signals st) then
        (let sg = signals st ! i;
             sg' = (case currentEffect st of
                      None \<Rightarrow> sg
                    | Some e \<Rightarrow> sg\<lparr>subscribers := set_add e (subscribers sg)\<rparr>)
         in Some (v_held sg,
                  st\<lparr>signals := (signals st)[i := sg'],
                     log := log st @ [ReadBy (currentEffect st) i]\<rparr>))
      else None)"

text \<open>
  The functions of \<^verbatim>\<open>MelodiReactive\<close> call each other through the callbacks: running a
  callback (\<open>Exec\<close>, one statement at a time with \<open>Step\<close>), the closures \<^verbatim>\<open>effect\<close> and
  \<^verbatim>\<open>execute\<close> (\<open>RunClosure\<close>), \<^verbatim>\<open>write\<close> (\<open>WriteSig\<close>) and its \<^verbatim>\<open>subscribers.forEach\<close>
  (\<open>ForEach\<close>, for a signal and a position in its set), and the bodies of the two effect
  constructors. They are the cases of one function \<open>run\<close>. A write inside an effect can
  trigger the effect again without end, so \<open>run\<close> takes a budget of nested calls, and
  \<open>None\<close> means that the budget did not suffice. \<^verbatim>\<open>forEach\<close> walks the live set by position:
  subscribers added while it runs are visited as well.
\<close>

datatype call =
    Exec "cmd list"
  | Step cmd
  | RunClosure nat
  | WriteSig nat jsval
  | ForEach nat nat
  | NewEffect "cmd list"
  | NewEffectWithCleanup "cmd list" "cmd list option"

fun run :: "nat \<Rightarrow> call \<Rightarrow> reactive \<Rightarrow> reactive option" where
  "run 0 c st = None"
| "run (Suc n) (Exec []) st = Some st"
| "run (Suc n) (Exec (c # cs)) st =
     (case run n (Step c) st of None \<Rightarrow> None | Some st' \<Rightarrow> run n (Exec cs) st')"
| "run (Suc n) (Step (Read i)) st = map_option snd (read i st)"
| "run (Suc n) (Step (Write i x)) st = run n (WriteSig i x) st"
| "run (Suc n) (Step (IfTruthy i a b)) st =
     (case read i st of
        None \<Rightarrow> None
      | Some (x, st') \<Rightarrow> run n (Exec (if truthy x then a else b)) st')"
| "run (Suc n) (Step (CreateEffect fn)) st = run n (NewEffect fn) st"
| "run (Suc n) (Step (CreateEffectWithCleanup fn ret)) st =
     run n (NewEffectWithCleanup fn ret) st"
| "run (Suc n) (RunClosure e) st =
     (if e < length (closures st) then
        (case closures st ! e of
           Effect fn \<Rightarrow>
             (case run n (Exec fn) (st\<lparr>currentEffect := Some e, log := log st @ [Ran e]\<rparr>) of
                None \<Rightarrow> None
              | Some st' \<Rightarrow> Some (st'\<lparr>currentEffect := None\<rparr>))
         | Execute fn ret cleanup \<Rightarrow>
             (case (case cleanup of
                      None \<Rightarrow> Some (st\<lparr>currentEffect := Some e, log := log st @ [Ran e]\<rparr>)
                    | Some cl \<Rightarrow>
                        run n (Exec cl)
                          (st\<lparr>currentEffect := Some e, log := log st @ [Ran e]\<rparr>)) of
                None \<Rightarrow> None
              | Some st1 \<Rightarrow>
                  (case run n (Exec fn) st1 of
                     None \<Rightarrow> None
                   | Some st2 \<Rightarrow>
                       Some (st2\<lparr>closures := (closures st2)[e := Execute fn ret ret],
                                 currentEffect := None\<rparr>))))
      else None)"
| "run (Suc n) (WriteSig i next) st =
     (if i < length (signals st) then
        (if isPrimitive next \<and> strict_eq (v_held (signals st ! i)) next then Some st
         else run n (ForEach i 0)
                (st\<lparr>signals := (signals st)[i := (signals st ! i)\<lparr>v_held := next\<rparr>]\<rparr>))
      else None)"
| "run (Suc n) (ForEach i k) st =
     (if k < length (subscribers (signals st ! i)) then
        (case run n (RunClosure (subscribers (signals st ! i) ! k)) st of
           None \<Rightarrow> None
         | Some st' \<Rightarrow> run n (ForEach i (Suc k)) st')
      else Some st)"
| "run (Suc n) (NewEffect fn) st =
     run n (RunClosure (length (closures st))) (st\<lparr>closures := closures st @ [Effect fn]\<rparr>)"
| "run (Suc n) (NewEffectWithCleanup fn ret) st =
     run n (RunClosure (length (closures st)))
       (st\<lparr>closures := closures st @ [Execute fn ret None]\<rparr>)"


definition run_closure :: "nat \<Rightarrow> nat \<Rightarrow> reactive \<Rightarrow> reactive option" where
  "run_closure n e st = run n (RunClosure e) st"

definition write_sig :: "nat \<Rightarrow> nat \<Rightarrow> jsval \<Rightarrow> reactive \<Rightarrow> reactive option" where
  "write_sig n i next st = run n (WriteSig i next) st"

text \<open>
  What \<^verbatim>\<open>createEffect\<close> returns is a function with an empty body; the number it carries
  here only says which effect it was returned for.
\<close>

datatype CleanupFn = Dispose nat


definition createEffect :: "nat \<Rightarrow> cmd list \<Rightarrow> reactive \<Rightarrow> (CleanupFn \<times> reactive) option" where
  "createEffect n fn st =
     map_option (\<lambda>st'. (Dispose (length (closures st)), st')) (run n (NewEffect fn) st)"

text \<open>
  \<^verbatim>\<open>createEffectWithCleanup\<close> returns a function that calls the current cleanup; the
  number here says for which closure.
\<close>

definition createEffectWithCleanup ::
  "nat \<Rightarrow> cmd list \<Rightarrow> cmd list option \<Rightarrow> reactive \<Rightarrow> (nat \<times> reactive) option" where
  "createEffectWithCleanup n fn ret st =
     map_option (\<lambda>st'. (length (closures st), st')) (run n (NewEffectWithCleanup fn ret) st)"


section \<open>Component teardown (melodijs.ts, Component)\<close>

text \<open>
  Of a component, the fields that \<^verbatim>\<open>_createEffect\<close> and \<^verbatim>\<open>unmount\<close> touch: the list
  \<^verbatim>\<open>_effects\<close> of functions returned by \<^verbatim>\<open>createEffect\<close>, the list \<^verbatim>\<open>_listeners\<close> of
  \<^verbatim>\<open>{node, ev, fn}\<close> entries, the hook \<^verbatim>\<open>hooks.unmounted\<close> (a callback, when present), and the
  mark and the content of the host element. The application holds the reactivity engine and
  the list \<^verbatim>\<open>_mountedComponents\<close>; the listeners registered on document nodes stand for the
  document.
\<close>

type_synonym listener = "nat \<times> string \<times> nat"

record component =
  comp_id :: nat
  effects_list :: "CleanupFn list"
  listeners_list :: "listener list"
  unmounted_hook :: "cmd list option"
  el_mounted :: bool
  el_innerHTML :: string

record app =
  reactivity :: reactive
  mountedComponents :: "nat list"
  dom_listeners :: "listener list"



section \<open>Scenarios\<close>

text \<open>Two signals created on a fresh engine, holding \<open>a\<close> and \<open>b\<close>.\<close>

definition two_signals :: "jsval \<Rightarrow> jsval \<Rightarrow> reactive" where
  "two_signals a b = snd (createSignal b (snd (createSignal a MelodiReactive)))"



text \<open>
  Nesting: the outer effect creates an inner effect that reads the first signal, and then
  reads the second signal itself.
\<close>

definition nested_created :: "reactive option" where
  "nested_created =
     map_option snd
       (createEffect 20 [CreateEffect [Read 0], Read 1]
          (two_signals (Number (Num 0)) (Number (Num 0))))"

text \<open>Then the second signal is written.\<close>

definition nested_after_second :: "reactive option" where
  "nested_after_second =
     Option.bind nested_created (\<lambda>st. write_sig 20 1 (Number (Num 1)) st)"


definition fresh_app :: app where
  "fresh_app =
     \<lparr>reactivity = two_signals (Number (Num 0)) (Number (Num 0)),
      mountedComponents = [0], dom_listeners = []\<rparr>"


definition effect_app :: app where
  "effect_app =
     fresh_app\<lparr>reactivity :=
       \<lparr>currentEffect = None,
        signals = [\<lparr>v_held = Number (Num 0), subscribers = [0]\<rparr>,
                   \<lparr>v_held = Number (Num 0), subscribers = []\<rparr>],
        closures = [Effect [Read 0]],
        log = [Ran 0, ReadBy (Some 0) 0]\<rparr>\<rparr>"



section \<open>Keyed list reconciler (melodijs.ts, \<^verbatim>\<open>_handleVFor\<close> with \<^verbatim>\<open>:key\<close>)\<close>

subsection \<open>The document around the list\<close>

text \<open>
  The reconciler works on the children of one node, the parent of the \<^verbatim>\<open>v-for\<close> anchor. Nodes
  are numbers; a node is a child of that parent or detached. The calls the reconciler makes
  on the document are logged, together with each clone-and-walk of the template.
\<close>

datatype mutation =
    RemoveChild nat
  | InsertBefore nat "nat option"
  | CreateNode nat

text \<open>
  A row of \<^verbatim>\<open>itemMap\<close> is \<^verbatim>\<open>{ element, item, index }\<close>; the \<^verbatim>\<open>Map\<close> keeps its keys in
  insertion order.
\<close>

record ('k, 'i, 'x) vfor =
  children :: "nat list"
  itemMap :: "('k \<times> nat \<times> 'i \<times> 'x) list"
  fresh :: nat
  mutations :: "mutation list"

definition nextSibling :: "nat list \<Rightarrow> nat \<Rightarrow> nat option" where
  "nextSibling cs n =
     (case dropWhile (\<lambda>x. x \<noteq> n) cs of
        [] \<Rightarrow> None
      | _ # rest \<Rightarrow> (case rest of [] \<Rightarrow> None | y # _ \<Rightarrow> Some y))"

definition firstChild :: "nat list \<Rightarrow> nat option" where
  "firstChild cs = (case cs of [] \<Rightarrow> None | x # _ \<Rightarrow> Some x)"

definition insert_at :: "nat \<Rightarrow> nat option \<Rightarrow> nat list \<Rightarrow> nat list" where
  "insert_at n ref cs =
     (case ref of
        None \<Rightarrow> cs @ [n]
      | Some r \<Rightarrow> takeWhile (\<lambda>x. x \<noteq> r) cs @ n # dropWhile (\<lambda>x. x \<noteq> r) cs)"

text \<open>
  \<^verbatim>\<open>parent.insertBefore(node, ref)\<close> as the DOM standard defines it: a reference that is the
  node itself is replaced by the node's next sibling, the node is removed from where it
  stands, and it is inserted before the reference, or appended when the reference is null.
  The reconciler only passes a reference that is a child of the parent or null.
\<close>

definition insertBefore ::
  "nat \<Rightarrow> nat option \<Rightarrow> ('k, 'i, 'x) vfor \<Rightarrow> ('k, 'i, 'x) vfor" where
  "insertBefore n ref st =
     (let cs = children st;
          ref' = (if ref = Some n then nextSibling cs n else ref)
      in st\<lparr>children := insert_at n ref' (remove1 n cs),
            mutations := mutations st @ [InsertBefore n ref]\<rparr>)"

text \<open>
  \<^verbatim>\<open>if (element && element.parentNode) element.parentNode.removeChild(element)\<close>
\<close>

definition removeChild :: "nat \<Rightarrow> ('k, 'i, 'x) vfor \<Rightarrow> ('k, 'i, 'x) vfor" where
  "removeChild n st =
     (if n \<in> set (children st)
      then st\<lparr>children := remove1 n (children st), mutations := mutations st @ [RemoveChild n]\<rparr>
      else st)"

subsection \<open>The effect body\<close>

text \<open>
  The list is given by its \<^verbatim>\<open>(index, item)\<close> pairs, as \<^verbatim>\<open>list.forEach\<close> or
  \<^verbatim>\<open>Object.keys(list).forEach\<close> visits them; \<open>keyExpr\<close> is the evaluation of the \<^verbatim>\<open>:key\<close>
  expression in the scope of an item, \<open>None\<close> for null or undefined, which skips the item.
\<close>

fun buildNew ::
  "('x \<Rightarrow> 'i \<Rightarrow> 'k option) \<Rightarrow> ('x \<times> 'i) list \<Rightarrow> 'k list \<times> ('k \<times> 'i \<times> 'x) list
     \<Rightarrow> 'k list \<times> ('k \<times> 'i \<times> 'x) list" where
  "buildNew keyExpr [] acc = acc"
| "buildNew keyExpr ((i, item) # rest) (newKeys, newItemMap) =
     (case keyExpr i item of
        None \<Rightarrow> buildNew keyExpr rest (newKeys, newItemMap)
      | Some key \<Rightarrow>
          buildNew keyExpr rest (newKeys @ [key], AList.update key (item, i) newItemMap))"

text \<open>One round of \<^verbatim>\<open>keysToRemove.forEach\<close>.\<close>

definition removeKey :: "'k \<Rightarrow> ('k, 'i, 'x) vfor \<Rightarrow> ('k, 'i, 'x) vfor" where
  "removeKey key st =
     (case map_of (itemMap st) key of
        None \<Rightarrow> st
      | Some (element, data) \<Rightarrow>
          (removeChild element st)\<lparr>itemMap := AList.delete key (itemMap st)\<rparr>)"

text \<open>
  \<^verbatim>\<open>newKeys.forEach\<close> with the cursor \<^verbatim>\<open>previousElement\<close>. Walking the clone of the template
  element yields one new node (the clone, or the anchor of a nested \<^verbatim>\<open>v-if\<close>), never a
  fragment. Every key of \<^verbatim>\<open>newKeys\<close> has a row in \<^verbatim>\<open>newItemMap\<close>.
\<close>

fun placeKeys ::
  "('k \<times> 'i \<times> 'x) list \<Rightarrow> 'k list \<Rightarrow> nat option \<Rightarrow> ('k, 'i, 'x) vfor \<Rightarrow> ('k, 'i, 'x) vfor" where
  "placeKeys newItemMap [] previousElement st = st"
| "placeKeys newItemMap (key # keys) previousElement st =
     (case map_of newItemMap key of
        None \<Rightarrow> st
      | Some newData \<Rightarrow>
          (case map_of (itemMap st) key of
             Some (element, data) \<Rightarrow>
               (let st1 =
                  (case previousElement of
                     Some p \<Rightarrow>
                       if nextSibling (children st) element \<noteq> nextSibling (children st) p
                       then insertBefore element (nextSibling (children st) p) st
                       else st
                   | None \<Rightarrow>
                       if firstChild (children st) \<noteq> Some element
                       then insertBefore element (firstChild (children st)) st
                       else st)
                in placeKeys newItemMap keys (Some element) st1)
           | None \<Rightarrow>
               (let processed = fresh st;
                    st0 = st\<lparr>fresh := Suc (fresh st),
                             mutations := mutations st @ [CreateNode processed]\<rparr>;
                    st1 = insertBefore processed
                            (case previousElement of
                               Some p \<Rightarrow> nextSibling (children st0) p
                             | None \<Rightarrow> firstChild (children st0))
                            st0
                in placeKeys newItemMap keys (Some processed)
                     (st1\<lparr>itemMap := AList.update key (processed, newData) (itemMap st1)\<rparr>))))"

text \<open>The keyed branch of the effect: build the new keys, remove, then place.\<close>

definition handleVFor_keyed ::
  "('x \<Rightarrow> 'i \<Rightarrow> 'k option) \<Rightarrow> ('x \<times> 'i) list \<Rightarrow> ('k, 'i, 'x) vfor \<Rightarrow> ('k, 'i, 'x) vfor" where
  "handleVFor_keyed keyExpr entries st =
     (case buildNew keyExpr entries ([], []) of
        (newKeys, newItemMap) \<Rightarrow>
          (let oldKeys = map fst (itemMap st);
               keysToRemove = filter (\<lambda>k. map_of newItemMap k = None) oldKeys;
               st1 = fold removeKey keysToRemove st
           in placeKeys newItemMap newKeys None st1))"

subsection \<open>Scenarios\<close>

text \<open>
  A parent whose only child is the anchor (node 0), nothing rendered yet. Items are their
  own keys; the index is the position in the array.
\<close>

definition empty_list :: "(string, string, nat) vfor" where
  "empty_list = \<lparr>children = [0], itemMap = [], fresh = 1, mutations = []\<rparr>"

definition array_entries :: "'i list \<Rightarrow> (nat \<times> 'i) list" where
  "array_entries xs = zip [0 ..< length xs] xs"

definition render :: "string list \<Rightarrow> (string, string, nat) vfor \<Rightarrow> (string, string, nat) vfor" where
  "render xs st = handleVFor_keyed (\<lambda>i item. Some item) (array_entries xs) (st\<lparr>mutations := []\<rparr>)"

text \<open>The list \<^verbatim>\<open>[a, b, c]\<close> as rendered into the empty parent.\<close>

definition abc_rendered :: "(string, string, nat) vfor" where
  "abc_rendered =
     \<lparr>children = [1, 2, 3, 0],
      itemMap = [(''a'', 1, ''a'', 0), (''b'', 2, ''b'', 1), (''c'', 3, ''c'', 2)],
      fresh = 4,
      mutations = []\<rparr>"

section \<open>Properties of the route matcher\<close>

lemma delete_keys_map_of:
  "map_of (obj_delete_keys src obj) k = (if k \<in> fst ` set src then None else map_of obj k)"
  unfolding obj_delete_keys_def
proof (induction src arbitrary: obj)
  case Nil show ?case by simp
next
  case (Cons a src)
  obtain x y where a: "a = (x, y)" by (cases a)
  show ?case using Cons[of "AList.delete x obj"] by (auto simp: a delete_conv')
qed

lemma spread_map_of:
  "map_of (obj_spread a b) k = (case map_of (rev b) k of Some v \<Rightarrow> Some v | None \<Rightarrow> map_of a k)"
  unfolding obj_spread_def
proof (induction b arbitrary: a)
  case Nil show ?case by simp
next
  case (Cons p b)
  obtain x y where p: "p = (x, y)" by (cases p)
  show ?case using Cons[of "obj_set x y a"]
    by (auto simp: p obj_set_def update_conv' map_add_def split: option.splits)
qed

lemma backtrack_params_le:
  assumes "map_of qs \<subseteq>\<^sub>m map_of (obj_spread ps rp)"
  shows "map_of (obj_delete_keys rp qs) \<subseteq>\<^sub>m map_of ps"
  unfolding map_le_def
proof
  fix k
  assume "k \<in> dom (map_of (obj_delete_keys rp qs))"
  then obtain v where h: "map_of (obj_delete_keys rp qs) k = Some v" by auto
  then have notin: "k \<notin> fst ` set rp" and q: "map_of qs k = Some v"
    by (auto simp: delete_keys_map_of split: if_splits)
  from q assms have "map_of (obj_spread ps rp) k = Some v"
    by (auto simp: map_le_def dom_def)
  moreover from notin have "map_of (rev rp) k = None"
    by (simp add: map_of_eq_None_iff)
  ultimately have "map_of ps k = Some v"
    by (simp add: spread_map_of)
  with h show "map_of (obj_delete_keys rp qs) k = map_of ps k" by simp
qed

lemma findMatch_fail_aux:
  "findMatch rs cur par st = (False, m', ps') \<Longrightarrow> m' = fst st \<and> map_of ps' \<subseteq>\<^sub>m map_of (snd st)"
proof (induction rs cur par st arbitrary: m' ps' rule: findMatch.induct)
  case (1 cur par m ps)
  then show ?case by simp
next
  case (2 p c ch routes cur par m ps)
  let ?full = "fullPathOf par p"
  show ?case
  proof (cases "extractParams ?full cur (ch \<noteq> None)")
    case None
    with "2.prems" have "findMatch routes cur par (m, ps) = (False, m', ps')" by simp
    with "2.IH"(1)[OF refl None] show ?thesis by simp
  next
    case (Some rp)
    let ?m1 = "m @ [RouteDef p c ch]"
    let ?ps1 = "obj_spread ps rp"
    show ?thesis
    proof (cases ch)
      case None
      note chN = this
      show ?thesis
      proof (cases "?full = cur")
        case True
        with "2.prems" Some chN show ?thesis by simp
      next
        case False
        with "2.prems" Some chN
        have r: "findMatch routes cur par (butlast ?m1, obj_delete_keys rp ?ps1) = (False, m', ps')"
          by simp
        from "2.IH"(2)[OF refl Some refl refl chN False r]
        have "m' = m" and "map_of ps' \<subseteq>\<^sub>m map_of (obj_delete_keys rp ?ps1)" by simp_all
        moreover have "map_of (obj_delete_keys rp ?ps1) \<subseteq>\<^sub>m map_of ps"
          by (rule backtrack_params_le) simp
        ultimately show ?thesis by (auto intro: map_le_trans)
      qed
    next
      case (Some cs)
      note chS = this
      obtain b m2 ps2 where sub: "findMatch cs cur ?full (?m1, ?ps1) = (b, m2, ps2)"
        by (cases "findMatch cs cur ?full (?m1, ?ps1)") auto
      show ?thesis
      proof (cases b)
        case True
        with "2.prems" \<open>extractParams ?full cur (ch \<noteq> None) = Some rp\<close> chS sub
        show ?thesis by simp
      next
        case False
        with sub have sub': "findMatch cs cur ?full (?m1, ?ps1) = (False, m2, ps2)" by simp
        from "2.IH"(3)[OF refl \<open>extractParams ?full cur (ch \<noteq> None) = Some rp\<close> refl refl chS sub']
        have m2: "m2 = ?m1" and le2: "map_of ps2 \<subseteq>\<^sub>m map_of ?ps1" by simp_all
        from "2.prems" \<open>extractParams ?full cur (ch \<noteq> None) = Some rp\<close> chS sub'
        have r: "findMatch routes cur par (butlast m2, obj_delete_keys rp ps2) = (False, m', ps')"
          by simp
        from "2.IH"(4)[OF refl \<open>extractParams ?full cur (ch \<noteq> None) = Some rp\<close> refl refl chS sub'[symmetric] refl refl r]
        have "m' = butlast m2" and "map_of ps' \<subseteq>\<^sub>m map_of (obj_delete_keys rp ps2)" by simp_all
        moreover have "map_of (obj_delete_keys rp ps2) \<subseteq>\<^sub>m map_of ps"
          by (rule backtrack_params_le) (rule le2)
        ultimately show ?thesis using m2 by (auto intro: map_le_trans)
      qed
    qed
  qed
qed

lemma findMatch_part_000_fail_aux:
  "findMatch_part_000 rs cur par st = (False, m', ps') \<Longrightarrow> m' = fst st \<and> map_of ps' \<subseteq>\<^sub>m map_of (snd st)"
proof (induction rs cur par st arbitrary: m' ps' rule: findMatch_part_000.induct)
  case (1 cur par m ps)
  then show ?case by simp
next
  case (2 p c ch routes cur par m ps)
  let ?full = "fullPathOf par p"
  show ?case
  proof (cases "extractParams ?full cur (ch \<noteq> None)")
    case None
    with "2.prems" have "findMatch_part_000 routes cur par (m, ps) = (False, m', ps')" by simp
    with "2.IH"(1)[OF refl None] show ?thesis by simp
  next
    case (Some rp)
    let ?m1 = "m @ [RouteDef p c ch]"
    let ?ps1 = "obj_spread ps rp"
    show ?thesis
    proof (cases ch)
      case None
      note chN = this
      from "2.prems" Some chN show ?thesis by simp
    next
      case (Some cs)
      note chS = this
      obtain b m2 ps2 where sub: "findMatch_part_000 cs cur ?full (?m1, ?ps1) = (b, m2, ps2)"
        by (cases "findMatch_part_000 cs cur ?full (?m1, ?ps1)") auto
      show ?thesis
      proof (cases b)
        case True
        with "2.prems" \<open>extractParams ?full cur (ch \<noteq> None) = Some rp\<close> chS sub
        show ?thesis by simp
      next
        case False
        with sub have sub': "findMatch_part_000 cs cur ?full (?m1, ?ps1) = (False, m2, ps2)" by simp
        from "2.IH"(2)[OF refl \<open>extractParams ?full cur (ch \<noteq> None) = Some rp\<close> refl refl chS sub']
        have m2: "m2 = ?m1" and le2: "map_of ps2 \<subseteq>\<^sub>m map_of ?ps1" by simp_all
        from "2.prems" \<open>extractParams ?full cur (ch \<noteq> None) = Some rp\<close> chS sub'
        have r: "findMatch_part_000 routes cur par (butlast m2, obj_delete_keys rp ps2) = (False, m', ps')"
          by simp
        from "2.IH"(3)[OF refl \<open>extractParams ?full cur (ch \<noteq> None) = Some rp\<close> refl refl chS sub'[symmetric] refl refl r]
        have "m' = butlast m2" and "map_of ps' \<subseteq>\<^sub>m map_of (obj_delete_keys rp ps2)" by simp_all
        moreover have "map_of (obj_delete_keys rp ps2) \<subseteq>\<^sub>m map_of ps"
          by (rule backtrack_params_le) (rule le2)
        ultimately show ?thesis using m2 by (auto intro: map_le_trans)
      qed
    qed
  qed
qed

text \<open>
  C1 (exact leaf match). For the table \<^verbatim>\<open>[{path:'/', component:Home}, {path:'/user/:id',
  component:User}]\<close> and the path \<^verbatim>\<open>/user/42\<close>, \<^verbatim>\<open>_matchRoute\<close> of router.ts returns the empty
  chain and no parameters: its childless branch accepts a route only when the pattern
  string \<^verbatim>\<open>fullPath\<close> equals the request path, and \<^verbatim>\<open>'/user/:id'\<close> is not \<^verbatim>\<open>'/user/42'\<close>. The
  second copy of the router returns the chain \<^verbatim>\<open>[User]\<close> with \<^verbatim>\<open>{id:'42'}\<close>.
\<close>

theorem exact_leaf_user_42:
  "matchRoute [RouteDef ''/'' ''Home'' None, RouteDef ''/user/:id'' ''User'' None] ''/user/42''
     = ([], [])
   \<and> matchRoute_part_000
       [RouteDef ''/'' ''Home'' None, RouteDef ''/user/:id'' ''User'' None] ''/user/42''
     = ([RouteDef ''/user/:id'' ''User'' None], [(''id'', ''42'')])"
  by code_simp

lemma extractLoop_bindings:
  "length pat = length segs \<Longrightarrow>
   (\<forall>i < length pat. \<not> startsWith (pat ! i) CHR '':'' \<longrightarrow> pat ! i = segs ! i) \<Longrightarrow>
   \<exists>ps. extractLoop pat segs acc = Some ps
      \<and> (\<forall>name. map_of ps name =
            (case filter (\<lambda>(p, s). startsWith p CHR '':'' \<and> tl p = name) (zip pat segs) of
               [] \<Rightarrow> map_of acc name
             | bs \<Rightarrow> Some (snd (last bs))))"
proof (induction pat arbitrary: segs acc)
  case Nil
  then show ?case by simp
next
  case (Cons patternPart rest)
  from Cons.prems(1) obtain seg segs' where segs: "segs = seg # segs'" by (cases segs) auto
  with Cons.prems(1) have len: "length rest = length segs'" by simp
  have lit: "\<forall>i < length rest. \<not> startsWith (rest ! i) CHR '':'' \<longrightarrow> rest ! i = segs' ! i"
  proof (intro allI impI)
    fix i assume "i < length rest" "\<not> startsWith (rest ! i) CHR '':''"
    with Cons.prems(2)[rule_format, of "Suc i"] segs show "rest ! i = segs' ! i" by simp
  qed
  show ?case
  proof (cases "startsWith patternPart CHR '':''")
    case True
    from Cons.IH[OF len lit, of "obj_set (tl patternPart) seg acc"] obtain ps where
      ps: "extractLoop rest segs' (obj_set (tl patternPart) seg acc) = Some ps"
      and m: "\<forall>name. map_of ps name =
            (case filter (\<lambda>(p, s). startsWith p CHR '':'' \<and> tl p = name) (zip rest segs') of
               [] \<Rightarrow> map_of (obj_set (tl patternPart) seg acc) name
             | bs \<Rightarrow> Some (snd (last bs)))"
      by blast
    have "extractLoop (patternPart # rest) segs acc = Some ps"
      using True ps segs by simp
    moreover have "\<forall>name. map_of ps name =
            (case filter (\<lambda>(p, s). startsWith p CHR '':'' \<and> tl p = name)
                    (zip (patternPart # rest) segs) of
               [] \<Rightarrow> map_of acc name
             | bs \<Rightarrow> Some (snd (last bs)))"
    proof
      fix name
      show "map_of ps name =
            (case filter (\<lambda>(p, s). startsWith p CHR '':'' \<and> tl p = name)
                    (zip (patternPart # rest) segs) of
               [] \<Rightarrow> map_of acc name
             | bs \<Rightarrow> Some (snd (last bs)))"
        using m[rule_format, of name] True segs
        by (cases "filter (\<lambda>(p, s). startsWith p CHR '':'' \<and> tl p = name) (zip rest segs')")
           (auto simp: obj_set_def update_conv')
    qed
    ultimately show ?thesis by blast
  next
    case False
    with Cons.prems(2)[rule_format, of 0] segs have eq: "patternPart = seg" by simp
    from Cons.IH[OF len lit, of acc] obtain ps where
      ps: "extractLoop rest segs' acc = Some ps"
      and m: "\<forall>name. map_of ps name =
            (case filter (\<lambda>(p, s). startsWith p CHR '':'' \<and> tl p = name) (zip rest segs') of
               [] \<Rightarrow> map_of acc name
             | bs \<Rightarrow> Some (snd (last bs)))"
      by blast
    have "extractLoop (patternPart # rest) segs acc = Some ps"
      using False ps segs eq by simp
    moreover have "\<forall>name. map_of ps name =
            (case filter (\<lambda>(p, s). startsWith p CHR '':'' \<and> tl p = name)
                    (zip (patternPart # rest) segs) of
               [] \<Rightarrow> map_of acc name
             | bs \<Rightarrow> Some (snd (last bs)))"
      using m False segs by simp
    ultimately show ?thesis by blast
  qed
qed

text \<open>
  The exact leaf match in general, on the second copy of the router: when the pattern of a
  childless route has as many segments as the path and each of its literal segments equals
  the path segment at its place, the parameters are extracted, the route is pushed on the
  chain and the search succeeds at once; a parameter name is bound to the path segment at
  the place of its last marker, and nothing else is bound.
\<close>

theorem exact_leaf_part_000:
  assumes "length (filter (\<lambda>p. p \<noteq> []) (split CHR ''/'' (fullPathOf par p)))
             = length (filter (\<lambda>p. p \<noteq> []) (split CHR ''/'' cur))"
      and "\<forall>i < length (filter (\<lambda>p. p \<noteq> []) (split CHR ''/'' (fullPathOf par p))).
             \<not> startsWith (filter (\<lambda>p. p \<noteq> []) (split CHR ''/'' (fullPathOf par p)) ! i) CHR '':''
             \<longrightarrow> filter (\<lambda>p. p \<noteq> []) (split CHR ''/'' (fullPathOf par p)) ! i
                  = filter (\<lambda>p. p \<noteq> []) (split CHR ''/'' cur) ! i"
  shows "\<exists>ps. extractParams (fullPathOf par p) cur False = Some ps
           \<and> findMatch_part_000 (RouteDef p c None # rest) cur par (m, ps0)
               = (True, m @ [RouteDef p c None], obj_spread ps0 ps)
           \<and> (\<forall>name. map_of ps name =
                 (case filter (\<lambda>(pp, s). startsWith pp CHR '':'' \<and> tl pp = name)
                         (zip (filter (\<lambda>p. p \<noteq> []) (split CHR ''/'' (fullPathOf par p)))
                              (filter (\<lambda>p. p \<noteq> []) (split CHR ''/'' cur))) of
                    [] \<Rightarrow> None
                  | bs \<Rightarrow> Some (snd (last bs))))"
proof -
  let ?pat = "filter (\<lambda>p. p \<noteq> []) (split CHR ''/'' (fullPathOf par p))"
  let ?segs = "filter (\<lambda>p. p \<noteq> []) (split CHR ''/'' cur)"
  from extractLoop_bindings[OF assms, of "[]"] obtain ps where
    ps: "extractLoop ?pat ?segs [] = Some ps"
    and m: "\<forall>name. map_of ps name =
            (case filter (\<lambda>(pp, s). startsWith pp CHR '':'' \<and> tl pp = name) (zip ?pat ?segs) of
               [] \<Rightarrow> map_of [] name
             | bs \<Rightarrow> Some (snd (last bs)))"
    by blast
  have e: "extractParams (fullPathOf par p) cur False = Some ps"
    using ps assms(1) by (simp add: extractParams_def Let_def)
  then have "findMatch_part_000 (RouteDef p c None # rest) cur par (m, ps0)
               = (True, m @ [RouteDef p c None], obj_spread ps0 ps)"
    by (simp add: Let_def)
  moreover have "\<forall>name. map_of ps name =
            (case filter (\<lambda>(pp, s). startsWith pp CHR '':'' \<and> tl pp = name) (zip ?pat ?segs) of
               [] \<Rightarrow> None
             | bs \<Rightarrow> Some (snd (last bs)))"
  proof
    fix name
    show "map_of ps name =
            (case filter (\<lambda>(pp, s). startsWith pp CHR '':'' \<and> tl pp = name) (zip ?pat ?segs) of
               [] \<Rightarrow> None
             | bs \<Rightarrow> Some (snd (last bs)))"
      using m[rule_format, of name]
      by (cases "filter (\<lambda>(pp, s). startsWith pp CHR '':'' \<and> tl pp = name) (zip ?pat ?segs)")
         simp_all
  qed
  ultimately show ?thesis using e by blast
qed

theorem exact_leaf_part_000_witness:
  "filter (\<lambda>p. p \<noteq> []) (split CHR ''/'' (fullPathOf [] ''/user/:id'')) = [''user'', '':id'']
   \<and> filter (\<lambda>p. p \<noteq> []) (split CHR ''/'' ''/user/42'') = [''user'', ''42'']
   \<and> (\<exists>ps. findMatch_part_000 [RouteDef ''/user/:id'' ''User'' None] ''/user/42'' [] ([], [])
               = (True, [] @ [RouteDef ''/user/:id'' ''User'' None], obj_spread [] ps)
            \<and> map_of ps ''id'' = Some ''42'' \<and> map_of ps ''user'' = None)"
proof -
  have a: "filter (\<lambda>p. p \<noteq> []) (split CHR ''/'' (fullPathOf [] ''/user/:id'')) = [''user'', '':id'']"
    by code_simp
  have b: "filter (\<lambda>p. p \<noteq> []) (split CHR ''/'' ''/user/42'') = [''user'', ''42'']"
    by code_simp
  have len: "length (filter (\<lambda>p. p \<noteq> []) (split CHR ''/'' (fullPathOf [] ''/user/:id'')))
      = length (filter (\<lambda>p. p \<noteq> []) (split CHR ''/'' ''/user/42''))"
    unfolding a b by simp
  have lit: "\<forall>i < length (filter (\<lambda>p. p \<noteq> []) (split CHR ''/'' (fullPathOf [] ''/user/:id''))).
      \<not> startsWith (filter (\<lambda>p. p \<noteq> []) (split CHR ''/'' (fullPathOf [] ''/user/:id'')) ! i) CHR '':''
      \<longrightarrow> filter (\<lambda>p. p \<noteq> []) (split CHR ''/'' (fullPathOf [] ''/user/:id'')) ! i
           = filter (\<lambda>p. p \<noteq> []) (split CHR ''/'' ''/user/42'') ! i"
    unfolding a b by (simp add: less_Suc_eq startsWith_def)
  from exact_leaf_part_000[OF len lit, of "''User''" "[]" "[]" "[]"] obtain ps where
    f: "findMatch_part_000 [RouteDef ''/user/:id'' ''User'' None] ''/user/42'' [] ([], [])
          = (True, [] @ [RouteDef ''/user/:id'' ''User'' None], obj_spread [] ps)"
    and m: "\<forall>name. map_of ps name =
                 (case filter (\<lambda>(pp, s). startsWith pp CHR '':'' \<and> tl pp = name)
                         (zip (filter (\<lambda>p. p \<noteq> []) (split CHR ''/'' (fullPathOf [] ''/user/:id'')))
                              (filter (\<lambda>p. p \<noteq> []) (split CHR ''/'' ''/user/42''))) of
                    [] \<Rightarrow> None
                  | bs \<Rightarrow> Some (snd (last bs)))"
    by blast
  from m[rule_format, of "''id''"] have "map_of ps ''id'' = Some ''42''"
    unfolding a b by (simp add: startsWith_def)
  moreover from m[rule_format, of "''user''"] have "map_of ps ''user'' = None"
    unfolding a b by (simp add: startsWith_def)
  ultimately show ?thesis using a b f by blast
qed

text \<open>
  C6 (nested backtrack). For the table \<^verbatim>\<open>[{path:'/admin', component:Admin,
  children:[{path:'users', component:AdminUsers}]}]\<close> and the path \<^verbatim>\<open>/admin\<close> both copies of
  the matcher return the empty chain and no parameters. In general, when the pattern of a
  route with declared children matches and no child matches, the search goes on with the
  next sibling on the chain as it was before the route was pushed, with every parameter
  the route contributed deleted and no other parameter added or changed.
\<close>

theorem nested_backtrack:
  "matchRoute [RouteDef ''/admin'' ''Admin'' (Some [RouteDef ''users'' ''AdminUsers'' None])]
       ''/admin'' = ([], [])
   \<and> matchRoute_part_000
       [RouteDef ''/admin'' ''Admin'' (Some [RouteDef ''users'' ''AdminUsers'' None])]
       ''/admin'' = ([], [])
   \<and> (\<forall>(p :: string) (c :: 'c) cs routes cur par m ps rp.
        extractParams (fullPathOf par p) cur True = Some rp
        \<and> \<not> fst (findMatch cs cur (fullPathOf par p)
                    (m @ [RouteDef p c (Some cs)], obj_spread ps rp))
        \<longrightarrow> (\<exists>ps'. findMatch (RouteDef p c (Some cs) # routes) cur par (m, ps)
                     = findMatch routes cur par (m, ps')
                   \<and> (\<forall>k \<in> fst ` set rp. map_of ps' k = None)
                   \<and> map_of ps' \<subseteq>\<^sub>m map_of ps))
   \<and> (\<forall>(p :: string) (c :: 'c) cs routes cur par m ps rp.
        extractParams (fullPathOf par p) cur True = Some rp
        \<and> \<not> fst (findMatch_part_000 cs cur (fullPathOf par p)
                    (m @ [RouteDef p c (Some cs)], obj_spread ps rp))
        \<longrightarrow> (\<exists>ps'. findMatch_part_000 (RouteDef p c (Some cs) # routes) cur par (m, ps)
                     = findMatch_part_000 routes cur par (m, ps')
                   \<and> (\<forall>k \<in> fst ` set rp. map_of ps' k = None)
                   \<and> map_of ps' \<subseteq>\<^sub>m map_of ps))"
proof (intro conjI allI impI)
  show "matchRoute [RouteDef ''/admin'' ''Admin'' (Some [RouteDef ''users'' ''AdminUsers'' None])]
       ''/admin'' = ([], [])"
    by code_simp
  show "matchRoute_part_000
       [RouteDef ''/admin'' ''Admin'' (Some [RouteDef ''users'' ''AdminUsers'' None])]
       ''/admin'' = ([], [])"
    by code_simp
next
  fix p :: string and c :: 'c and cs routes cur par m ps rp
  let ?full = "fullPathOf par p"
  let ?m1 = "m @ [RouteDef p c (Some cs)]"
  assume h: "extractParams ?full cur True = Some rp
     \<and> \<not> fst (findMatch cs cur ?full (?m1, obj_spread ps rp))"
  obtain m2 ps2 where sub: "findMatch cs cur ?full (?m1, obj_spread ps rp) = (False, m2, ps2)"
    using h by (cases "findMatch cs cur ?full (?m1, obj_spread ps rp)") auto
  from findMatch_fail_aux[OF sub]
  have m2: "m2 = ?m1" and le: "map_of ps2 \<subseteq>\<^sub>m map_of (obj_spread ps rp)" by simp_all
  let ?ps' = "obj_delete_keys rp ps2"
  have "findMatch (RouteDef p c (Some cs) # routes) cur par (m, ps)
          = findMatch routes cur par (m, ?ps')"
    using h sub m2 by simp
  moreover have "\<forall>k \<in> fst ` set rp. map_of ?ps' k = None"
    by (simp add: delete_keys_map_of)
  moreover have "map_of ?ps' \<subseteq>\<^sub>m map_of ps"
    by (rule backtrack_params_le) (rule le)
  ultimately show "\<exists>ps'. findMatch (RouteDef p c (Some cs) # routes) cur par (m, ps)
                     = findMatch routes cur par (m, ps')
                   \<and> (\<forall>k \<in> fst ` set rp. map_of ps' k = None)
                   \<and> map_of ps' \<subseteq>\<^sub>m map_of ps"
    by blast
next
  fix p :: string and c :: 'c and cs routes cur par m ps rp
  let ?full = "fullPathOf par p"
  let ?m1 = "m @ [RouteDef p c (Some cs)]"
  assume h: "extractParams ?full cur True = Some rp
     \<and> \<not> fst (findMatch_part_000 cs cur ?full (?m1, obj_spread ps rp))"
  obtain m2 ps2 where
    sub: "findMatch_part_000 cs cur ?full (?m1, obj_spread ps rp) = (False, m2, ps2)"
    using h by (cases "findMatch_part_000 cs cur ?full (?m1, obj_spread ps rp)") auto
  from findMatch_part_000_fail_aux[OF sub]
  have m2: "m2 = ?m1" and le: "map_of ps2 \<subseteq>\<^sub>m map_of (obj_spread ps rp)" by simp_all
  let ?ps' = "obj_delete_keys rp ps2"
  have "findMatch_part_000 (RouteDef p c (Some cs) # routes) cur par (m, ps)
          = findMatch_part_000 routes cur par (m, ?ps')"
    using h sub m2 by simp
  moreover have "\<forall>k \<in> fst ` set rp. map_of ?ps' k = None"
    by (simp add: delete_keys_map_of)
  moreover have "map_of ?ps' \<subseteq>\<^sub>m map_of ps"
    by (rule backtrack_params_le) (rule le)
  ultimately show "\<exists>ps'. findMatch_part_000 (RouteDef p c (Some cs) # routes) cur par (m, ps)
                     = findMatch_part_000 routes cur par (m, ps')
                   \<and> (\<forall>k \<in> fst ` set rp. map_of ps' k = None)
                   \<and> map_of ps' \<subseteq>\<^sub>m map_of ps"
    by blast
qed

theorem nested_backtrack_witness:
  "extractParams (fullPathOf [] ''/admin'') ''/admin'' True = Some []
   \<and> \<not> fst (findMatch [RouteDef ''users'' ''AdminUsers'' None] ''/admin''
              (fullPathOf [] ''/admin'')
              ([] @ [RouteDef ''/admin'' ''Admin'' (Some [RouteDef ''users'' ''AdminUsers'' None])],
               obj_spread [] []))
   \<and> (\<exists>ps'. findMatch
                [RouteDef ''/admin'' ''Admin'' (Some [RouteDef ''users'' ''AdminUsers'' None])]
                ''/admin'' [] ([], [])
              = findMatch [] ''/admin'' [] ([], ps')
            \<and> map_of ps' \<subseteq>\<^sub>m map_of [])
   \<and> \<not> fst (findMatch_part_000 [RouteDef ''users'' ''AdminUsers'' None] ''/admin''
              (fullPathOf [] ''/admin'')
              ([] @ [RouteDef ''/admin'' ''Admin'' (Some [RouteDef ''users'' ''AdminUsers'' None])],
               obj_spread [] []))
   \<and> (\<exists>ps'. findMatch_part_000
                [RouteDef ''/admin'' ''Admin'' (Some [RouteDef ''users'' ''AdminUsers'' None])]
                ''/admin'' [] ([], [])
              = findMatch_part_000 [] ''/admin'' [] ([], ps')
            \<and> map_of ps' \<subseteq>\<^sub>m map_of [])"
proof -
  have a: "extractParams (fullPathOf [] ''/admin'') ''/admin'' True = Some []"
    by code_simp
  have b: "\<not> fst (findMatch [RouteDef ''users'' ''AdminUsers'' None] ''/admin''
              (fullPathOf [] ''/admin'')
              ([] @ [RouteDef ''/admin'' ''Admin'' (Some [RouteDef ''users'' ''AdminUsers'' None])],
               obj_spread [] []))"
    by code_simp
  have c: "\<not> fst (findMatch_part_000 [RouteDef ''users'' ''AdminUsers'' None] ''/admin''
              (fullPathOf [] ''/admin'')
              ([] @ [RouteDef ''/admin'' ''Admin'' (Some [RouteDef ''users'' ''AdminUsers'' None])],
               obj_spread [] []))"
    by code_simp
  from nested_backtrack[THEN conjunct2, THEN conjunct2, THEN conjunct1, rule_format,
      OF conjI[OF a b], where routes = "[]"]
  have d: "\<exists>ps'. findMatch
                [RouteDef ''/admin'' ''Admin'' (Some [RouteDef ''users'' ''AdminUsers'' None])]
                ''/admin'' [] ([], [])
              = findMatch [] ''/admin'' [] ([], ps')
            \<and> map_of ps' \<subseteq>\<^sub>m map_of []"
    by blast
  from nested_backtrack[THEN conjunct2, THEN conjunct2, THEN conjunct2, rule_format,
      OF conjI[OF a c], where routes = "[]"]
  have e: "\<exists>ps'. findMatch_part_000
                [RouteDef ''/admin'' ''Admin'' (Some [RouteDef ''users'' ''AdminUsers'' None])]
                ''/admin'' [] ([], [])
              = findMatch_part_000 [] ''/admin'' [] ([], ps')
            \<and> map_of ps' \<subseteq>\<^sub>m map_of []"
    by blast
  from a b c d e show ?thesis by blast
qed

section \<open>Properties of query parsing\<close>

lemma split_notin: "c \<notin> set s \<Longrightarrow> split c s = [s]"
  by (induction s) auto









section \<open>Properties of navigation\<close>

lemma getCurrentPath_plain:
  "p \<noteq> [] \<Longrightarrow> CHR ''?'' \<notin> set p \<Longrightarrow> getCurrentPath (CHR ''#'' # p) = p"
  by (simp add: getCurrentPath_def split_notin)

lemma getCurrentQuery_plain:
  "CHR ''?'' \<notin> set p \<Longrightarrow> getCurrentQuery dec (CHR ''#'' # p) = Inr []"
  by (simp add: getCurrentQuery_def split_notin)

lemma push_signals:
  "currentRoute (push p st) = currentRoute st" "matched (push p st) = matched st"
  "params (push p st) = params st" "query (push p st) = query st"
  "routes (push p st) = routes st" "beforeEachHook (push p st) = beforeEachHook st"
  by (simp_all add: push_def Let_def)

text \<open>
  C9 (navigation guard), as the code has it. With a hook registered, one run of
  \<^verbatim>\<open>_handleRouteChange\<close> does one of three things. If the hook does not call \<^verbatim>\<open>next\<close>, the
  router is unchanged. If it calls \<^verbatim>\<open>next()\<close> and the query decodes, the requested path, its
  match, the parameters and the query are committed. If it calls \<^verbatim>\<open>next(path)\<close> with a
  non-empty path, nothing is committed and the location hash is set to that path; when this
  changes the hash, the \<^verbatim>\<open>hashchange\<close> event runs the hook again for the redirect path, and
  if the hook then calls \<^verbatim>\<open>next()\<close> the redirect path and its match are committed; when the
  hash already is the redirect path, no event follows and nothing is committed.
\<close>

theorem guard_outcomes:
  assumes "beforeEachHook st = Some hook"
  shows "(hook (getCurrentPath (location_hash st)) (currentRoute st) = NotCalled
            \<longrightarrow> handleRouteChange dec st = (None, st))
       \<and> (\<forall>p. hook (getCurrentPath (location_hash st)) (currentRoute st) = NextTo p \<and> p \<noteq> []
            \<longrightarrow> handleRouteChange dec st = (None, push p st)
                \<and> currentRoute (push p st) = currentRoute st
                \<and> matched (push p st) = matched st
                \<and> params (push p st) = params st
                \<and> query (push p st) = query st)
       \<and> (\<forall>q. hook (getCurrentPath (location_hash st)) (currentRoute st) = Next
              \<and> getCurrentQuery dec (location_hash st) = Inr q
            \<longrightarrow> handleRouteChange dec st
                  = (None, st\<lparr>currentRoute := getCurrentPath (location_hash st),
                              matched := fst (matchRoute (routes st) (getCurrentPath (location_hash st))),
                              params := snd (matchRoute (routes st) (getCurrentPath (location_hash st))),
                              query := q\<rparr>))
       \<and> (\<forall>p. \<not> hashchange_pending st
              \<and> hook (getCurrentPath (location_hash st)) (currentRoute st) = NextTo p
              \<and> p \<noteq> [] \<and> \<not> startsWith p CHR ''#'' \<and> CHR ''?'' \<notin> set p
              \<and> CHR ''#'' # p \<noteq> location_hash st
              \<and> hook p (currentRoute st) = Next
            \<longrightarrow> map_option (\<lambda>s. (currentRoute s, matched s, params s, query s, hashchange_pending s))
                  (deliver (Suc n) dec (snd (handleRouteChange dec st)))
                = Some (p, fst (matchRoute (routes st) p), snd (matchRoute (routes st) p), [], False))
       \<and> (\<forall>p. \<not> hashchange_pending st
              \<and> hook (getCurrentPath (location_hash st)) (currentRoute st) = NextTo p
              \<and> p \<noteq> [] \<and> \<not> startsWith p CHR ''#''
              \<and> CHR ''#'' # p = location_hash st
            \<longrightarrow> deliver n dec (snd (handleRouteChange dec st)) = Some st)"
proof (intro conjI allI impI)
  let ?new = "getCurrentPath (location_hash st)"
  {
    assume "hook ?new (currentRoute st) = NotCalled"
    with assms show "handleRouteChange dec st = (None, st)"
      by (simp add: handleRouteChange_def)
  }
  {
    fix p assume h: "hook ?new (currentRoute st) = NextTo p \<and> p \<noteq> []"
    with assms show "handleRouteChange dec st = (None, push p st)"
      by (simp add: handleRouteChange_def)
    show "currentRoute (push p st) = currentRoute st" "matched (push p st) = matched st"
      "params (push p st) = params st" "query (push p st) = query st"
      by (simp_all add: push_signals)
  }
  {
    fix q assume "hook ?new (currentRoute st) = Next \<and> getCurrentQuery dec (location_hash st) = Inr q"
    with assms show "handleRouteChange dec st
                  = (None, st\<lparr>currentRoute := ?new,
                              matched := fst (matchRoute (routes st) ?new),
                              params := snd (matchRoute (routes st) ?new),
                              query := q\<rparr>)"
      by (simp add: handleRouteChange_def proceed_def Let_def split: prod.splits)
  }
  {
    fix p
    assume h: "\<not> hashchange_pending st
              \<and> hook ?new (currentRoute st) = NextTo p
              \<and> p \<noteq> [] \<and> \<not> startsWith p CHR ''#'' \<and> CHR ''?'' \<notin> set p
              \<and> CHR ''#'' # p \<noteq> location_hash st
              \<and> hook p (currentRoute st) = Next"
    let ?st1 = "st\<lparr>location_hash := CHR ''#'' # p, hashchange_pending := True\<rparr>"
    let ?st2 = "st\<lparr>location_hash := CHR ''#'' # p, hashchange_pending := False\<rparr>"
    from h have pu: "push p st = ?st1" by (simp add: push_def Let_def)
    from h assms have r1: "snd (handleRouteChange dec st) = ?st1"
      by (simp add: handleRouteChange_def pu)
    from h have gp: "getCurrentPath (location_hash ?st2) = p"
      by (simp add: getCurrentPath_plain)
    from h have gq: "getCurrentQuery dec (location_hash ?st2) = Inr []"
      by (simp add: getCurrentQuery_plain)
    have r2: "handleRouteChange dec ?st2
        = (None, ?st2\<lparr>currentRoute := p, matched := fst (matchRoute (routes st) p),
                       params := snd (matchRoute (routes st) p), query := []\<rparr>)"
      using h assms gp gq by (simp add: handleRouteChange_def proceed_def Let_def split: prod.splits)
    have "deliver (Suc n) dec ?st1
        = Some (?st2\<lparr>currentRoute := p, matched := fst (matchRoute (routes st) p),
                       params := snd (matchRoute (routes st) p), query := []\<rparr>)"
      using r2 by (cases n) simp_all
    with r1 show "map_option (\<lambda>s. (currentRoute s, matched s, params s, query s, hashchange_pending s))
                  (deliver (Suc n) dec (snd (handleRouteChange dec st)))
                = Some (p, fst (matchRoute (routes st) p), snd (matchRoute (routes st) p), [], False)"
      by simp
  }
  {
    fix p
    assume h: "\<not> hashchange_pending st
              \<and> hook ?new (currentRoute st) = NextTo p
              \<and> p \<noteq> [] \<and> \<not> startsWith p CHR ''#''
              \<and> CHR ''#'' # p = location_hash st"
    then have "push p st = st" by (simp add: push_def Let_def)
    with h assms have "snd (handleRouteChange dec st) = st"
      by (simp add: handleRouteChange_def)
    with h show "deliver n dec (snd (handleRouteChange dec st)) = Some st"
      by (cases n) simp_all
  }
qed

text \<open>
  The specification's sentence, that a redirect ends with the redirect path committed, fails
  on a hook that answers every navigation with \<^verbatim>\<open>next('/login')\<close>: the visit of \<^verbatim>\<open>/admin\<close>
  leaves the hash at \<^verbatim>\<open>#/login\<close> and the committed route at \<^verbatim>\<open>/\<close>.
\<close>

theorem guard_counterexample:
  "always_login ''/admin'' ''/'' = NextTo ''/login''
   \<and> map_option (\<lambda>st. (location_hash st, currentRoute st, matched st)) (visit_admin always_login)
     = Some (''#/login'', ''/'', [RouteDef ''/'' ''Home'' None])"
  by code_simp

theorem guard_outcomes_witness:
  "beforeEachHook ((installed admin_to_login)\<lparr>location_hash := ''#/admin''\<rparr>) = Some admin_to_login
   \<and> admin_to_login ''/admin'' ''/'' = NextTo ''/login''
   \<and> admin_to_login ''/login'' ''/'' = Next
   \<and> handleRouteChange Some ((installed admin_to_login)\<lparr>location_hash := ''#/admin''\<rparr>)
       = (None, push ''/login'' ((installed admin_to_login)\<lparr>location_hash := ''#/admin''\<rparr>))
   \<and> map_option (\<lambda>s. (currentRoute s, matched s, params s, query s, hashchange_pending s))
        (deliver (Suc 0) Some
           (snd (handleRouteChange Some ((installed admin_to_login)\<lparr>location_hash := ''#/admin''\<rparr>))))
       = Some (''/login'', [RouteDef ''/login'' ''Login'' None], [], [], False)
   \<and> handleRouteChange Some ((installed never_calls)\<lparr>location_hash := ''#/admin''\<rparr>)
       = (None, (installed never_calls)\<lparr>location_hash := ''#/admin''\<rparr>)
   \<and> handleRouteChange Some ((installed always_next)\<lparr>location_hash := ''#/admin''\<rparr>)
       = (None, (installed always_next)
                  \<lparr>location_hash := ''#/admin'', currentRoute := ''/admin'',
                    matched := [RouteDef ''/admin'' ''Admin'' None], params := [], query := []\<rparr>)
   \<and> deliver 3 Some
        (snd (handleRouteChange Some ((installed always_login)\<lparr>location_hash := ''#/login''\<rparr>)))
       = Some ((installed always_login)\<lparr>location_hash := ''#/login''\<rparr>)"
proof -
  let ?st = "(installed admin_to_login)\<lparr>location_hash := ''#/admin''\<rparr>"
  let ?sn = "(installed never_calls)\<lparr>location_hash := ''#/admin''\<rparr>"
  let ?sx = "(installed always_next)\<lparr>location_hash := ''#/admin''\<rparr>"
  let ?sl = "(installed always_login)\<lparr>location_hash := ''#/login''\<rparr>"
  have hk: "beforeEachHook ?st = Some admin_to_login" by (simp add: installed_def)
  have hn: "beforeEachHook ?sn = Some never_calls" by (simp add: installed_def)
  have hx: "beforeEachHook ?sx = Some always_next" by (simp add: installed_def)
  have hl: "beforeEachHook ?sl = Some always_login" by (simp add: installed_def)
  have path: "getCurrentPath (location_hash ?st) = ''/admin''"
    by (simp add: getCurrentPath_def)
  have path': "getCurrentPath ''#/admin'' = ''/admin''"
    by (simp add: getCurrentPath_def)
  have path'': "getCurrentPath ''#/login'' = ''/login''"
    by (simp add: getCurrentPath_def)
  have cur: "currentRoute ?st = ''/''" by (simp add: installed_def)
  have a: "admin_to_login ''/admin'' ''/'' = NextTo ''/login''" by (simp add: admin_to_login_def)
  have b: "admin_to_login ''/login'' ''/'' = Next" by (simp add: admin_to_login_def)
  have m: "matchRoute (routes ?st) ''/login'' = ([RouteDef ''/login'' ''Login'' None], [])"
    unfolding installed_def by code_simp
  have mx: "matchRoute (routes ?sx) ''/admin'' = ([RouteDef ''/admin'' ''Admin'' None], [])"
    unfolding installed_def by code_simp
  note t = guard_outcomes[OF hk, of Some 0]
  have p2: "admin_to_login (getCurrentPath (location_hash ?st)) (currentRoute ?st) = NextTo ''/login''
      \<and> ''/login'' \<noteq> []"
    using a by (simp add: path' cur)
  have p4: "\<not> hashchange_pending ?st
      \<and> admin_to_login (getCurrentPath (location_hash ?st)) (currentRoute ?st) = NextTo ''/login''
      \<and> ''/login'' \<noteq> [] \<and> \<not> startsWith ''/login'' CHR ''#'' \<and> CHR ''?'' \<notin> set ''/login''
      \<and> CHR ''#'' # ''/login'' \<noteq> location_hash ?st
      \<and> admin_to_login ''/login'' (currentRoute ?st) = Next"
    using a b by (simp add: path' cur startsWith_def) (simp add: installed_def)
  from t[THEN conjunct2, THEN conjunct1, rule_format, OF p2]
  have r2: "handleRouteChange Some ?st = (None, push ''/login'' ?st)" by blast
  from t[THEN conjunct2, THEN conjunct2, THEN conjunct2, THEN conjunct1, rule_format, OF p4]
  have r4: "map_option (\<lambda>s. (currentRoute s, matched s, params s, query s, hashchange_pending s))
        (deliver (Suc 0) Some (snd (handleRouteChange Some ?st)))
       = Some (''/login'', fst (matchRoute (routes ?st) ''/login''),
               snd (matchRoute (routes ?st) ''/login''), [], False)" .
  from r4 have r4': "map_option (\<lambda>s. (currentRoute s, matched s, params s, query s, hashchange_pending s))
        (deliver (Suc 0) Some (snd (handleRouteChange Some ?st)))
       = Some (''/login'', [RouteDef ''/login'' ''Login'' None], [], [], False)"
    unfolding m by simp
  have p1: "never_calls (getCurrentPath (location_hash ?sn)) (currentRoute ?sn) = NotCalled"
    by (simp add: never_calls_def)
  from guard_outcomes[OF hn, of Some 0, THEN conjunct1, rule_format, OF p1]
  have r1: "handleRouteChange Some ?sn = (None, ?sn)" .
  have p3: "always_next (getCurrentPath (location_hash ?sx)) (currentRoute ?sx) = Next
      \<and> getCurrentQuery Some (location_hash ?sx) = Inr []"
    by (simp add: always_next_def getCurrentQuery_def)
  from guard_outcomes[OF hx, of Some 0, THEN conjunct2, THEN conjunct2, THEN conjunct1,
      rule_format, OF p3]
  have r3: "handleRouteChange Some ?sx
      = (None, ?sx\<lparr>currentRoute := getCurrentPath (location_hash ?sx),
                     matched := fst (matchRoute (routes ?sx) (getCurrentPath (location_hash ?sx))),
                     params := snd (matchRoute (routes ?sx) (getCurrentPath (location_hash ?sx))),
                     query := []\<rparr>)" .
  have r3': "handleRouteChange Some ?sx
      = (None, (installed always_next)
                  \<lparr>location_hash := ''#/admin'', currentRoute := ''/admin'',
                    matched := [RouteDef ''/admin'' ''Admin'' None], params := [], query := []\<rparr>)"
    using r3 mx by (simp add: path')
  have p5: "\<not> hashchange_pending ?sl
      \<and> always_login (getCurrentPath (location_hash ?sl)) (currentRoute ?sl) = NextTo ''/login''
      \<and> ''/login'' \<noteq> [] \<and> \<not> startsWith ''/login'' CHR ''#''
      \<and> CHR ''#'' # ''/login'' = location_hash ?sl"
    by (simp add: always_login_def startsWith_def installed_def)
  from guard_outcomes[OF hl, of Some 3, THEN conjunct2, THEN conjunct2, THEN conjunct2,
      THEN conjunct2, rule_format, OF p5]
  have r5: "deliver 3 Some (snd (handleRouteChange Some ?sl)) = Some ?sl" .
  from hk a b r2 r4' r1 r3' r5 show ?thesis by blast
qed

section \<open>Properties of signals and effects\<close>



lemma read_current: "read i st = Some (x, st') \<Longrightarrow> currentEffect st' = currentEffect st"
  by (auto simp: read_def Let_def split: if_splits)











lemma run_closure_current:
  "run n (RunClosure e) st = Some st' \<Longrightarrow> currentEffect st' = None"
  by (cases n) (auto split: if_splits option.splits closure.splits)


lemma run_current:
  "run n c st = Some st' \<Longrightarrow> currentEffect st' = None \<or> currentEffect st' = currentEffect st"
proof (induction n c st arbitrary: st' rule: run.induct)
  case (3 n c cs st)
  then obtain st1 where a: "run n (Step c) st = Some st1" and b: "run n (Exec cs) st1 = Some st'"
    by (auto split: option.splits)
  from "3.IH"(1)[OF a] "3.IH"(2)[OF a b] show ?case by auto
next
  case (6 n i a b st)
  then obtain x st1 where r: "read i st = Some (x, st1)"
    and e: "run n (Exec (if truthy x then a else b)) st1 = Some st'"
    by (auto split: option.splits)
  from "6.IH"[OF r refl e] read_current[OF r] show ?case by auto
next
  case (9 n e st)
  from run_closure_current[OF "9.prems"] show ?case by simp
next
  case (10 n i "next" st)
  then show ?case by (auto split: if_splits)
next
  case (11 n i k st)
  show ?case
  proof (cases "k < length (subscribers (signals st ! i))")
    case True
    with "11.prems" obtain st1 where
      a: "run n (RunClosure (subscribers (signals st ! i) ! k)) st = Some st1"
      and b: "run n (ForEach i (Suc k)) st1 = Some st'"
      by (auto split: option.splits)
    from run_closure_current[OF a] "11.IH"(2)[OF True a b] show ?thesis by auto
  next
    case False
    with "11.prems" show ?thesis by simp
  qed
next
  case (12 n fn st)
  from run_closure_current[of n _ _ st'] "12.prems" show ?case by simp
next
  case (13 n fn ret st)
  from run_closure_current[of n _ _ st'] "13.prems" show ?case by simp
qed (auto dest: read_current)

lemma read_no_context:
  "currentEffect st = None \<Longrightarrow> read i st = Some (x, st') \<Longrightarrow> signals st' = signals st"
  by (auto simp: read_def Let_def split: if_splits)






text \<open>
  C3 (nested effects), as the code has it. When the run of an effect closure finishes, the
  tracking context is cleared, not restored: after \<^verbatim>\<open>createEffect\<close>,
  \<^verbatim>\<open>createEffectWithCleanup\<close> or any run of an effect closure returns, there is no current
  effect. Once there is none, every further call leaves it so, and a read made while there
  is none subscribes nobody. So an effect that creates an effect inside its run is
  subscribed by the reads it made before, and not by the reads it makes afterwards.
\<close>

theorem context_cleared:
  "(createEffect n fn st = Some (d, st') \<longrightarrow> currentEffect st' = None)
   \<and> (createEffectWithCleanup n fn ret st = Some (k, st') \<longrightarrow> currentEffect st' = None)
   \<and> (run_closure n e st = Some st' \<longrightarrow> currentEffect st' = None)
   \<and> (currentEffect st = None \<and> run n c st = Some st' \<longrightarrow> currentEffect st' = None)
   \<and> (currentEffect st = None \<and> read i st = Some (y, st') \<longrightarrow> signals st' = signals st)"
proof (intro conjI impI)
  show "run_closure n e st = Some st' \<Longrightarrow> currentEffect st' = None"
    unfolding run_closure_def by (rule run_closure_current)
  have new: "\<And>m s. run m (NewEffect fn) s = Some st' \<Longrightarrow> currentEffect st' = None"
  proof -
    fix m s assume "run m (NewEffect fn) s = Some st'"
    then show "currentEffect st' = None"
      by (cases m) (auto dest: run_closure_current)
  qed
  have newc: "\<And>m s. run m (NewEffectWithCleanup fn ret) s = Some st' \<Longrightarrow> currentEffect st' = None"
  proof -
    fix m s assume "run m (NewEffectWithCleanup fn ret) s = Some st'"
    then show "currentEffect st' = None"
      by (cases m) (auto dest: run_closure_current)
  qed
  show "createEffect n fn st = Some (d, st') \<Longrightarrow> currentEffect st' = None"
    using new[of n st] by (auto simp: createEffect_def)
  show "createEffectWithCleanup n fn ret st = Some (k, st') \<Longrightarrow> currentEffect st' = None"
    using newc[of n st] by (auto simp: createEffectWithCleanup_def)
  show "currentEffect st = None \<and> run n c st = Some st' \<Longrightarrow> currentEffect st' = None"
    using run_current[of n c st st'] by auto
  show "currentEffect st = None \<and> read i st = Some (y, st') \<Longrightarrow> signals st' = signals st"
    using read_no_context by auto
qed

text \<open>
  The specification's sentence, that the outer context is restored, fails on an outer effect
  that creates an inner effect and then reads a signal: the read is logged with no tracking
  context, the signal has no subscriber, and a write to it starts no run.
\<close>

theorem nested_counterexample:
  "nested_created
     = Some \<lparr>currentEffect = None,
             signals = [\<lparr>v_held = Number (Num 0), subscribers = [1]\<rparr>,
                        \<lparr>v_held = Number (Num 0), subscribers = []\<rparr>],
             closures = [Effect [CreateEffect [Read 0], Read 1], Effect [Read 0]],
             log = [Ran 0, Ran 1, ReadBy (Some 1) 0, ReadBy None 1]\<rparr>
   \<and> map_option log nested_after_second
     = Some [Ran 0, Ran 1, ReadBy (Some 1) 0, ReadBy None 1]"
  by code_simp

theorem context_cleared_witness:
  "createEffect 20 [CreateEffect [Read 0], Read 1] (two_signals (Number (Num 0)) (Number (Num 0)))
     = Some (Dispose 0,
         \<lparr>currentEffect = None,
          signals = [\<lparr>v_held = Number (Num 0), subscribers = [1]\<rparr>,
                     \<lparr>v_held = Number (Num 0), subscribers = []\<rparr>],
          closures = [Effect [CreateEffect [Read 0], Read 1], Effect [Read 0]],
          log = [Ran 0, Ran 1, ReadBy (Some 1) 0, ReadBy None 1]\<rparr>)
   \<and> createEffectWithCleanup 20 [Read 0] (Some [Read 1])
         (two_signals (Number (Num 0)) (Number (Num 0)))
     = Some (0,
         \<lparr>currentEffect = None,
          signals = [\<lparr>v_held = Number (Num 0), subscribers = [0]\<rparr>,
                     \<lparr>v_held = Number (Num 0), subscribers = []\<rparr>],
          closures = [Execute [Read 0] (Some [Read 1]) (Some [Read 1])],
          log = [Ran 0, ReadBy (Some 0) 0]\<rparr>)
   \<and> run_closure 20 0 (reactivity effect_app)
     = Some \<lparr>currentEffect = None,
             signals = [\<lparr>v_held = Number (Num 0), subscribers = [0]\<rparr>,
                        \<lparr>v_held = Number (Num 0), subscribers = []\<rparr>],
             closures = [Effect [Read 0]],
             log = [Ran 0, ReadBy (Some 0) 0, Ran 0, ReadBy (Some 0) 0]\<rparr>
   \<and> currentEffect (reactivity effect_app) = None
   \<and> read 1 (reactivity effect_app)
       = Some (Number (Num 0),
               (reactivity effect_app)\<lparr>log := [Ran 0, ReadBy (Some 0) 0, ReadBy None 1]\<rparr>)
   \<and> signals ((reactivity effect_app)\<lparr>log := [Ran 0, ReadBy (Some 0) 0, ReadBy None 1]\<rparr>)
       = signals (reactivity effect_app)
   \<and> run 20 (WriteSig 0 (Number (Num 5))) (reactivity effect_app)
       = Some \<lparr>currentEffect = None,
               signals = [\<lparr>v_held = Number (Num 5), subscribers = [0]\<rparr>,
                          \<lparr>v_held = Number (Num 0), subscribers = []\<rparr>],
               closures = [Effect [Read 0]],
               log = [Ran 0, ReadBy (Some 0) 0, Ran 0, ReadBy (Some 0) 0]\<rparr>"
proof -
  let ?st1 = "\<lparr>currentEffect = None,
          signals = [\<lparr>v_held = Number (Num 0), subscribers = [1]\<rparr>,
                     \<lparr>v_held = Number (Num 0), subscribers = []\<rparr>],
          closures = [Effect [CreateEffect [Read 0], Read 1], Effect [Read 0]],
          log = [Ran 0, Ran 1, ReadBy (Some 1) 0, ReadBy None 1]\<rparr>"
  let ?st2 = "(reactivity effect_app)\<lparr>log := [Ran 0, ReadBy (Some 0) 0, ReadBy None 1]\<rparr>"
  let ?st3 = "\<lparr>currentEffect = None,
               signals = [\<lparr>v_held = Number (Num 5), subscribers = [0]\<rparr>,
                          \<lparr>v_held = Number (Num 0), subscribers = []\<rparr>],
               closures = [Effect [Read 0]],
               log = [Ran 0, ReadBy (Some 0) 0, Ran 0, ReadBy (Some 0) 0]\<rparr>"
  let ?st4 = "\<lparr>currentEffect = None,
          signals = [\<lparr>v_held = Number (Num 0), subscribers = [0]\<rparr>,
                     \<lparr>v_held = Number (Num 0), subscribers = []\<rparr>],
          closures = [Execute [Read 0] (Some [Read 1]) (Some [Read 1])],
          log = [Ran 0, ReadBy (Some 0) 0]\<rparr>"
  let ?st5 = "\<lparr>currentEffect = None,
             signals = [\<lparr>v_held = Number (Num 0), subscribers = [0]\<rparr>,
                        \<lparr>v_held = Number (Num 0), subscribers = []\<rparr>],
             closures = [Effect [Read 0]],
             log = [Ran 0, ReadBy (Some 0) 0, Ran 0, ReadBy (Some 0) 0]\<rparr>"
  have a: "createEffect 20 [CreateEffect [Read 0], Read 1]
             (two_signals (Number (Num 0)) (Number (Num 0))) = Some (Dispose 0, ?st1)"
    by code_simp
  have a2: "createEffectWithCleanup 20 [Read 0] (Some [Read 1])
             (two_signals (Number (Num 0)) (Number (Num 0))) = Some (0, ?st4)"
    by code_simp
  have a3: "run_closure 20 0 (reactivity effect_app) = Some ?st5"
    by code_simp
  have cur: "currentEffect (reactivity effect_app) = None"
    by (simp add: effect_app_def)
  have rd: "read 1 (reactivity effect_app) = Some (Number (Num 0), ?st2)"
    by (simp add: effect_app_def fresh_app_def read_def)
  have w: "run 20 (WriteSig 0 (Number (Num 5))) (reactivity effect_app) = Some ?st3"
    by code_simp
  note t = context_cleared[of 20 "[CreateEffect [Read 0], Read 1]"
      "two_signals (Number (Num 0)) (Number (Num 0))" "Dispose 0" ?st1]
  from t[THEN conjunct1, rule_format, OF a] have "currentEffect ?st1 = None" .
  moreover
  from context_cleared[where n = 20 and fn = "[Read 0]" and ret = "Some [Read 1]"
      and st = "two_signals (Number (Num 0)) (Number (Num 0))" and k = 0 and st' = ?st4,
      THEN conjunct2, THEN conjunct1, rule_format, OF a2]
  have "currentEffect ?st4 = None" .
  moreover
  from context_cleared[where n = 20 and e = 0 and st = "reactivity effect_app" and st' = ?st5,
      THEN conjunct2, THEN conjunct2, THEN conjunct1, rule_format, OF a3]
  have "currentEffect ?st5 = None" .
  moreover
  from context_cleared[where st = "reactivity effect_app" and st' = ?st2 and i = 1
      and y = "Number (Num 0)", THEN conjunct2, THEN conjunct2, THEN conjunct2, THEN conjunct2,
      rule_format, OF conjI[OF cur rd]]
  have "signals ?st2 = signals (reactivity effect_app)" .
  moreover
  from context_cleared[where st = "reactivity effect_app" and st' = ?st3 and n = 20
      and c = "WriteSig 0 (Number (Num 5))", THEN conjunct2, THEN conjunct2, THEN conjunct2,
      THEN conjunct1, rule_format, OF conjI[OF cur w]]
  have "currentEffect ?st3 = None" .
  ultimately show ?thesis using a a2 a3 cur rd w by simp
qed

section \<open>Properties of component teardown\<close>





section \<open>Properties of the keyed list reconciler\<close>

lemma insertBefore_fields [simp]:
  "itemMap (insertBefore n r st) = itemMap st"
  "fresh (insertBefore n r st) = fresh st"
  "mutations (insertBefore n r st) = mutations st @ [InsertBefore n r]"
  by (simp_all add: insertBefore_def Let_def)

lemma removeChild_fields [simp]:
  "itemMap (removeChild n st) = itemMap st"
  "fresh (removeChild n st) = fresh st"
  by (simp_all add: removeChild_def)

lemma buildNew_keys:
  "buildNew keyExpr es (ks, m) = (ks', m') \<Longrightarrow> set ks = fst ` set m \<Longrightarrow> set ks' = fst ` set m'"
proof (induction es arbitrary: ks m)
  case Nil
  then show ?case by simp
next
  case (Cons e es)
  obtain i item where e: "e = (i, item)" by (cases e)
  show ?case
  proof (cases "keyExpr i item")
    case None
    with Cons.prems e have "buildNew keyExpr es (ks, m) = (ks', m')" by simp
    from Cons.IH[OF this Cons.prems(2)] show ?thesis .
  next
    case (Some key)
    with Cons.prems e have
      b: "buildNew keyExpr es (ks @ [key], AList.update key (item, i) m) = (ks', m')" by simp
    have "set (ks @ [key]) = fst ` set (AList.update key (item, i) m)"
      using Cons.prems(2) by (simp add: dom_update)
    from Cons.IH[OF b this] show ?thesis .
  qed
qed

lemma removeKey_lookup:
  "map_of (itemMap (removeKey key st)) k = (if k = key then None else map_of (itemMap st) k)"
  by (auto simp: removeKey_def delete_conv' split: option.splits)

lemma removeKey_fresh [simp]: "fresh (removeKey key st) = fresh st"
  by (auto simp: removeKey_def split: option.splits)

lemma fold_removeKey_lookup:
  "map_of (itemMap (fold removeKey ks st)) k = (if k \<in> set ks then None else map_of (itemMap st) k)"
  by (induction ks arbitrary: st) (auto simp: removeKey_lookup)

lemma fold_removeKey_fresh [simp]: "fresh (fold removeKey ks st) = fresh st"
  by (induction ks arbitrary: st) auto

lemma placeKeys_lookup:
  "map_of (itemMap st) k = Some row \<Longrightarrow> map_of (itemMap (placeKeys nim keys prev st)) k = Some row"
proof (induction keys arbitrary: prev st)
  case Nil
  then show ?case by simp
next
  case (Cons key keys)
  show ?case
  proof (cases "map_of nim key")
    case None
    with Cons.prems show ?thesis by simp
  next
    case (Some newData)
    note nd = this
    show ?thesis
    proof (cases "map_of (itemMap st) key")
      case None
      then have "k \<noteq> key" using Cons.prems by auto
      with None nd Cons.prems show ?thesis
        by (auto simp: Let_def update_conv' intro!: Cons.IH)
    next
      case (Some r)
      obtain element data where r: "r = (element, data)" by (cases r)
      with Some nd Cons.prems show ?thesis
        by (auto simp: Let_def intro!: Cons.IH split: option.splits)
    qed
  qed
qed

lemma placeKeys_reuse_only:
  "\<forall>k \<in> set keys. map_of (itemMap st) k \<noteq> None \<Longrightarrow>
   itemMap (placeKeys nim keys prev st) = itemMap st
   \<and> fresh (placeKeys nim keys prev st) = fresh st
   \<and> (\<exists>ms. mutations (placeKeys nim keys prev st) = mutations st @ ms
         \<and> (\<forall>m \<in> set ms. \<exists>n r. m = InsertBefore n r))"
proof (induction keys arbitrary: prev st)
  case Nil
  then show ?case by simp
next
  case (Cons key keys)
  show ?case
  proof (cases "map_of nim key")
    case None
    then show ?thesis by simp
  next
    case (Some newData)
    from Cons.prems obtain element data where r: "map_of (itemMap st) key = Some (element, data)"
      by (cases "map_of (itemMap st) key") auto
    define st1 where "st1 =
       (case prev of
          Some p \<Rightarrow>
            if nextSibling (children st) element \<noteq> nextSibling (children st) p
            then insertBefore element (nextSibling (children st) p) st
            else st
        | None \<Rightarrow>
            if firstChild (children st) \<noteq> Some element
            then insertBefore element (firstChild (children st)) st
            else st)"
    have step: "placeKeys nim (key # keys) prev st = placeKeys nim keys (Some element) st1"
      using Some r by (simp add: st1_def Let_def)
    have f1: "itemMap st1 = itemMap st" "fresh st1 = fresh st"
      by (auto simp: st1_def split: option.splits)
    have m1: "\<exists>ms. mutations st1 = mutations st @ ms \<and> (\<forall>m \<in> set ms. \<exists>n r. m = InsertBefore n r)"
      by (auto simp: st1_def split: option.splits)
    then obtain ms1 where ms1: "mutations st1 = mutations st @ ms1"
      "\<forall>m \<in> set ms1. \<exists>n r. m = InsertBefore n r" by blast
    have "\<forall>k \<in> set keys. map_of (itemMap st1) k \<noteq> None" using Cons.prems f1 by simp
    from Cons.IH[OF this, of "Some element"] obtain ms2 where
      ih: "itemMap (placeKeys nim keys (Some element) st1) = itemMap st1"
        "fresh (placeKeys nim keys (Some element) st1) = fresh st1"
        "mutations (placeKeys nim keys (Some element) st1) = mutations st1 @ ms2"
        "\<forall>m \<in> set ms2. \<exists>n r. m = InsertBefore n r"
      by blast
    have "mutations (placeKeys nim (key # keys) prev st) = mutations st @ (ms1 @ ms2)
        \<and> (\<forall>m \<in> set (ms1 @ ms2). \<exists>n r. m = InsertBefore n r)"
      using step ih ms1 by auto
    with step ih f1 show ?thesis by (metis (no_types, lifting))
  qed
qed

lemma dropWhile_neq_skip:
  "e \<notin> set es \<Longrightarrow> dropWhile (\<lambda>x. x \<noteq> e) (es @ ys) = dropWhile (\<lambda>x. x \<noteq> e) ys"
  by (induction es) auto

lemma takeWhile_neq_skip:
  "h \<notin> set es \<Longrightarrow> takeWhile (\<lambda>x. x \<noteq> h) (es @ h # t) = es"
  by (induction es) auto

lemma nextSibling_last:
  assumes "distinct (es @ rest)" "es \<noteq> []"
  shows "nextSibling (es @ rest) (last es) = firstChild rest"
proof -
  from assms(2) have es: "es = butlast es @ [last es]" by simp
  from assms(1) have "distinct es" by simp
  then have "distinct (butlast es @ [last es])" using es by simp
  then have notin: "last es \<notin> set (butlast es)" by simp
  have "dropWhile (\<lambda>x. x \<noteq> last es) (es @ rest)
          = dropWhile (\<lambda>x. x \<noteq> last es) (butlast es @ ([last es] @ rest))"
    using es by (metis append_assoc)
  also have "\<dots> = dropWhile (\<lambda>x. x \<noteq> last es) ([last es] @ rest)"
    using notin by (rule dropWhile_neq_skip)
  finally show ?thesis by (simp add: nextSibling_def firstChild_def split: list.splits)
qed

lemma nextSibling_skip:
  "e \<notin> set es \<Longrightarrow> nextSibling (es @ rest) e = nextSibling rest e"
  by (simp add: nextSibling_def dropWhile_neq_skip)

lemma nextSibling_not_first:
  assumes "distinct xs" "xs = h # t"
  shows "nextSibling xs e \<noteq> Some h"
proof
  assume a: "nextSibling xs e = Some h"
  let ?P = "\<lambda>x. x \<noteq> e"
  from a obtain x zs where dw: "dropWhile ?P xs = x # h # zs"
    by (auto simp: nextSibling_def split: list.splits)
  obtain tw where eq: "xs = tw @ x # h # zs"
    by (metis dw takeWhile_dropWhile_id)
  show False
  proof (cases tw)
    case Nil
    with eq assms(2) have "t = h # zs" by simp
    with assms show False by simp
  next
    case (Cons y ys)
    with eq assms(2) have "y = h" and "t = ys @ x # h # zs" by simp_all
    with assms show False by simp
  qed
qed

lemma insert_at_front:
  "h \<notin> set es \<Longrightarrow> insert_at e (Some h) (es @ h # t) = es @ e # h # t"
  by (simp add: insert_at_def takeWhile_neq_skip dropWhile_neq_skip)

lemma place_step:
  assumes nd: "map_of nim key = Some newData"
      and row: "map_of (itemMap st) key = Some (e, d)"
      and cs: "children st = es @ rest"
      and dist: "distinct (es @ rest)"
      and e: "e \<in> set rest"
      and prev: "prev = (if es = [] then None else Some (last es))"
  shows "\<exists>st1. placeKeys nim (key # keys) prev st = placeKeys nim keys (Some e) st1
           \<and> children st1 = (es @ [e]) @ remove1 e rest \<and> itemMap st1 = itemMap st"
proof -
  from e obtain h t where rest: "rest = h # t" by (cases rest) auto
  from dist e have e_es: "e \<notin> set es" by auto
  from dist rest have h_es: "h \<notin> set es" and dt: "distinct (h # t)" by auto
  define st1 where "st1 =
       (case prev of
          Some p \<Rightarrow>
            if nextSibling (children st) e \<noteq> nextSibling (children st) p
            then insertBefore e (nextSibling (children st) p) st
            else st
        | None \<Rightarrow>
            if firstChild (children st) \<noteq> Some e
            then insertBefore e (firstChild (children st)) st
            else st)"
  have step: "placeKeys nim (key # keys) prev st = placeKeys nim keys (Some e) st1"
    using nd row by (simp add: st1_def Let_def)
  have im: "itemMap st1 = itemMap st"
    by (auto simp: st1_def split: option.splits)
  have moved: "children (insertBefore e (Some h) st) = es @ e # remove1 e rest"
  proof (cases "h = e")
    case True
    have ns: "nextSibling (es @ e # t) e = firstChild t"
      using e_es by (simp add: nextSibling_skip) (simp add: nextSibling_def firstChild_def)
    have rm: "remove1 e (es @ e # t) = es @ t"
      using e_es by (simp add: remove1_append)
    show ?thesis
    proof (cases t)
      case Nil
      with True rest cs ns rm show ?thesis
        by (simp add: insertBefore_def Let_def insert_at_def firstChild_def)
    next
      case (Cons r t')
      from dist rest Cons have "r \<notin> set es" by auto
      from insert_at_front[OF this, of e t'] True rest cs ns rm Cons show ?thesis
        by (simp add: insertBefore_def Let_def firstChild_def)
    qed
  next
    case False
    have rm: "remove1 e (es @ h # t) = es @ h # remove1 e t"
      using e_es False by (simp add: remove1_append)
    from insert_at_front[OF h_es, of e "remove1 e t"] False rest cs rm show ?thesis
      by (simp add: insertBefore_def Let_def)
  qed
  have "children st1 = es @ e # remove1 e rest"
  proof (cases "es = []")
    case True
    with prev have p: "prev = None" by simp
    show ?thesis
    proof (cases "h = e")
      case True
      with p \<open>es = []\<close> cs rest show ?thesis by (simp add: st1_def firstChild_def)
    next
      case False
      with p \<open>es = []\<close> cs rest moved show ?thesis
        by (simp add: st1_def firstChild_def)
    qed
  next
    case False
    with prev have p: "prev = Some (last es)" by simp
    have a: "nextSibling (children st) (last es) = Some h"
      using nextSibling_last[OF dist False] cs rest by (simp add: firstChild_def)
    have b: "nextSibling (children st) e \<noteq> Some h"
      using nextSibling_skip[OF e_es, of rest] nextSibling_not_first[OF dt refl, of e] cs rest by simp
    from p a b moved show ?thesis by (simp add: st1_def)
  qed
  with step im show ?thesis by auto
qed

lemma placeKeys_order:
  assumes "distinct keys"
      and "\<forall>k \<in> set keys. map_of nim k \<noteq> None"
      and "\<forall>k \<in> set keys. \<exists>d. map_of (itemMap st) k = Some (el k, d)"
      and "inj_on el (set keys)"
      and "el ` set keys \<subseteq> set rest"
      and "children st = es @ rest"
      and "distinct (es @ rest)"
      and "prev = (if es = [] then None else Some (last es))"
  shows "children (placeKeys nim keys prev st)
           = es @ map el keys @ filter (\<lambda>n. n \<notin> el ` set keys) rest"
  using assms
proof (induction keys arbitrary: es rest prev st)
  case Nil
  then show ?case by simp
next
  case (Cons key keys)
  from Cons.prems(2) obtain newData where nd: "map_of nim key = Some newData" by auto
  from Cons.prems(3) obtain d where row: "map_of (itemMap st) key = Some (el key, d)" by auto
  from Cons.prems(5) have e: "el key \<in> set rest" by simp
  from place_step[OF nd row Cons.prems(6) Cons.prems(7) e Cons.prems(8), of keys]
  obtain st1 where
    step: "placeKeys nim (key # keys) prev st = placeKeys nim keys (Some (el key)) st1"
    and cs1: "children st1 = (es @ [el key]) @ remove1 (el key) rest"
    and im1: "itemMap st1 = itemMap st"
    by blast
  have dk: "distinct keys" using Cons.prems(1) by simp
  have nim: "\<forall>k \<in> set keys. map_of nim k \<noteq> None" using Cons.prems(2) by simp
  have rows: "\<forall>k \<in> set keys. \<exists>d. map_of (itemMap st1) k = Some (el k, d)"
    using Cons.prems(3) im1 by simp
  have inj: "inj_on el (set keys)" using Cons.prems(4) by (simp add: inj_on_def)
  have ne: "\<forall>k \<in> set keys. el k \<noteq> el key"
    using Cons.prems(1,4) by (auto simp: inj_on_def)
  have dr: "distinct rest" using Cons.prems(7) by simp
  have rm: "remove1 (el key) rest = filter (\<lambda>n. n \<noteq> el key) rest"
    using dr by (simp add: distinct_remove1_removeAll removeAll_filter_not_eq) (metis)
  have sub: "el ` set keys \<subseteq> set (remove1 (el key) rest)"
    using Cons.prems(5) ne dr by auto
  have dist1: "distinct ((es @ [el key]) @ remove1 (el key) rest)"
    using Cons.prems(7) e by auto
  have prev1: "Some (el key) = (if es @ [el key] = [] then None else Some (last (es @ [el key])))"
    by simp
  from Cons.IH[OF dk nim rows inj sub cs1 dist1 prev1]
  have "children (placeKeys nim keys (Some (el key)) st1)
          = (es @ [el key]) @ map el keys @ filter (\<lambda>n. n \<notin> el ` set keys) (remove1 (el key) rest)" .
  moreover have "filter (\<lambda>n. n \<notin> el ` set keys) (remove1 (el key) rest)
          = filter (\<lambda>n. n \<notin> el ` set (key # keys)) rest"
    unfolding rm by (auto intro: filter_cong)
  ultimately show ?case using step by simp
qed

text \<open>
  C7 (idempotence). The list \<^verbatim>\<open>[a, b, c]\<close> is rendered into a parent that holds only the
  anchor, and the reconciler is run again with the same list. The second run leaves the
  order of the children as it was, but it calls \<^verbatim>\<open>parent.insertBefore\<close> on the second and on
  the third element, each with the element itself as reference: the test
  \<^verbatim>\<open>element.nextSibling !== previousElement.nextSibling\<close> is true for an element that already
  stands behind its predecessor.
\<close>

theorem rerender_unchanged_moves:
  "render [''a'', ''b'', ''c''] empty_list
     = \<lparr>children = [1, 2, 3, 0],
        itemMap = [(''a'', 1, ''a'', 0), (''b'', 2, ''b'', 1), (''c'', 3, ''c'', 2)],
        fresh = 4,
        mutations = [CreateNode 1, InsertBefore 1 (Some 0), CreateNode 2,
                     InsertBefore 2 (Some 0), CreateNode 3, InsertBefore 3 (Some 0)]\<rparr>
   \<and> render [''a'', ''b'', ''c''] (render [''a'', ''b'', ''c''] empty_list)
     = \<lparr>children = [1, 2, 3, 0],
        itemMap = [(''a'', 1, ''a'', 0), (''b'', 2, ''b'', 1), (''c'', 3, ''c'', 2)],
        fresh = 4,
        mutations = [InsertBefore 2 (Some 2), InsertBefore 3 (Some 3)]\<rparr>"
  by code_simp

text \<open>
  C8 (reorder). The list \<^verbatim>\<open>[a, b, c]\<close> is rendered and then recomputed as \<^verbatim>\<open>[c, a, b]\<close>: the
  three rows of \<^verbatim>\<open>itemMap\<close> keep their elements, no node is created, \<^verbatim>\<open>removeChild\<close> is
  not called, the only calls are \<^verbatim>\<open>insertBefore\<close> on the three elements, and the children end
  in the order c, a, b before the anchor. In general: a row of \<^verbatim>\<open>itemMap\<close> whose key is among
  the new keys is kept as it is, so no clone-and-walk happens for a key of the map; and when
  the new keys are the old keys in another order, without repetition, each rendered by its
  own element standing in the parent, the run keeps the map, creates nothing, calls only
  \<^verbatim>\<open>insertBefore\<close>, and leaves the elements at the front of the parent in the order of the new
  keys, followed by the other children in their old order.
\<close>

theorem keyed_reorder_reuses:
  "render [''c'', ''a'', ''b''] (render [''a'', ''b'', ''c''] empty_list)
     = \<lparr>children = [3, 1, 2, 0],
        itemMap = [(''a'', 1, ''a'', 0), (''b'', 2, ''b'', 1), (''c'', 3, ''c'', 2)],
        fresh = 4,
        mutations = [InsertBefore 3 (Some 1), InsertBefore 1 (Some 1), InsertBefore 2 (Some 2)]\<rparr>
   \<and> (\<forall>(keyExpr :: 'x \<Rightarrow> 'i \<Rightarrow> 'k option) entries (st :: ('k, 'i, 'x) vfor) newKeys newItemMap.
        buildNew keyExpr entries ([], []) = (newKeys, newItemMap) \<longrightarrow>
        (\<forall>k row. map_of (itemMap st) k = Some row \<and> k \<in> set newKeys
            \<longrightarrow> map_of (itemMap (handleVFor_keyed keyExpr entries st)) k = Some row))
   \<and> (\<forall>(keyExpr :: 'x \<Rightarrow> 'i \<Rightarrow> 'k option) entries (st :: ('k, 'i, 'x) vfor) newKeys newItemMap el.
        buildNew keyExpr entries ([], []) = (newKeys, newItemMap)
        \<and> distinct newKeys \<and> set newKeys = fst ` set (itemMap st)
        \<and> (\<forall>k \<in> set newKeys. \<exists>d. map_of (itemMap st) k = Some (el k, d))
        \<and> inj_on el (set newKeys) \<and> el ` set newKeys \<subseteq> set (children st)
        \<and> distinct (children st)
        \<longrightarrow> itemMap (handleVFor_keyed keyExpr entries st) = itemMap st
            \<and> fresh (handleVFor_keyed keyExpr entries st) = fresh st
            \<and> (\<exists>ms. mutations (handleVFor_keyed keyExpr entries st) = mutations st @ ms
                   \<and> (\<forall>m \<in> set ms. \<exists>n r. m = InsertBefore n r))
            \<and> children (handleVFor_keyed keyExpr entries st)
                = map el newKeys @ filter (\<lambda>n. n \<notin> el ` set newKeys) (children st))"
proof (intro conjI allI impI)
  show "render [''c'', ''a'', ''b''] (render [''a'', ''b'', ''c''] empty_list)
     = \<lparr>children = [3, 1, 2, 0],
        itemMap = [(''a'', 1, ''a'', 0), (''b'', 2, ''b'', 1), (''c'', 3, ''c'', 2)],
        fresh = 4,
        mutations = [InsertBefore 3 (Some 1), InsertBefore 1 (Some 1), InsertBefore 2 (Some 2)]\<rparr>"
    by code_simp
next
  fix keyExpr :: "'x \<Rightarrow> 'i \<Rightarrow> 'k option" and entries and st :: "('k, 'i, 'x) vfor"
    and newKeys newItemMap k row
  assume b: "buildNew keyExpr entries ([], []) = (newKeys, newItemMap)"
    and h: "map_of (itemMap st) k = Some row \<and> k \<in> set newKeys"
  from buildNew_keys[OF b] have keys: "set newKeys = fst ` set newItemMap" by simp
  with h have "map_of newItemMap k \<noteq> None" by (simp add: map_of_eq_None_iff)
  then have "k \<notin> set (filter (\<lambda>k. map_of newItemMap k = None) (map fst (itemMap st)))" by simp
  with h have "map_of (itemMap (fold removeKey
      (filter (\<lambda>k. map_of newItemMap k = None) (map fst (itemMap st))) st)) k = Some row"
    by (simp add: fold_removeKey_lookup)
  from placeKeys_lookup[OF this]
  show "map_of (itemMap (handleVFor_keyed keyExpr entries st)) k = Some row"
    using b by (simp add: handleVFor_keyed_def Let_def)
next
  fix keyExpr :: "'x \<Rightarrow> 'i \<Rightarrow> 'k option" and entries and st :: "('k, 'i, 'x) vfor"
    and newKeys newItemMap el
  assume h: "buildNew keyExpr entries ([], []) = (newKeys, newItemMap)
        \<and> distinct newKeys \<and> set newKeys = fst ` set (itemMap st)
        \<and> (\<forall>k \<in> set newKeys. \<exists>d. map_of (itemMap st) k = Some (el k, d))
        \<and> inj_on el (set newKeys) \<and> el ` set newKeys \<subseteq> set (children st)
        \<and> distinct (children st)"
  then have b: "buildNew keyExpr entries ([], []) = (newKeys, newItemMap)" by simp
  from buildNew_keys[OF b] have keys: "set newKeys = fst ` set newItemMap" by simp
  then have nim: "\<forall>k \<in> set newKeys. map_of newItemMap k \<noteq> None"
    by (simp add: map_of_eq_None_iff)
  have "\<forall>k \<in> set (map fst (itemMap st)). map_of newItemMap k \<noteq> None"
  proof
    fix k assume "k \<in> set (map fst (itemMap st))"
    with h have "k \<in> set newKeys" by simp
    with nim show "map_of newItemMap k \<noteq> None" by blast
  qed
  then have none: "filter (\<lambda>k. map_of newItemMap k = None) (map fst (itemMap st)) = []"
    by (simp add: filter_empty_conv)
  have eq: "handleVFor_keyed keyExpr entries st = placeKeys newItemMap newKeys None st"
    using b none by (simp add: handleVFor_keyed_def Let_def)
  have present: "\<forall>k \<in> set newKeys. map_of (itemMap st) k \<noteq> None"
  proof
    fix k assume "k \<in> set newKeys"
    with h obtain d where "map_of (itemMap st) k = Some (el k, d)" by blast
    then show "map_of (itemMap st) k \<noteq> None" by simp
  qed
  from placeKeys_reuse_only[OF present, of newItemMap None] eq
  show "itemMap (handleVFor_keyed keyExpr entries st) = itemMap st"
    and "fresh (handleVFor_keyed keyExpr entries st) = fresh st"
    and "\<exists>ms. mutations (handleVFor_keyed keyExpr entries st) = mutations st @ ms
                   \<and> (\<forall>m \<in> set ms. \<exists>n r. m = InsertBefore n r)"
    by simp_all
  have "children (placeKeys newItemMap newKeys None st)
          = [] @ map el newKeys @ filter (\<lambda>n. n \<notin> el ` set newKeys) (children st)"
  proof (rule placeKeys_order)
    show "distinct newKeys" using h by blast
    show "\<forall>k \<in> set newKeys. map_of newItemMap k \<noteq> None" by (rule nim)
    show "\<forall>k \<in> set newKeys. \<exists>d. map_of (itemMap st) k = Some (el k, d)" using h by blast
    show "inj_on el (set newKeys)" using h by blast
    show "el ` set newKeys \<subseteq> set (children st)" using h by blast
    show "children st = [] @ children st" by simp
    show "distinct ([] @ children st)" using h by simp
    show "None = (if [] = ([] :: nat list) then None else Some (last []))" by simp
  qed
  with eq show "children (handleVFor_keyed keyExpr entries st)
                = map el newKeys @ filter (\<lambda>n. n \<notin> el ` set newKeys) (children st)"
    by simp
qed

theorem keyed_reorder_reuses_witness:
  "buildNew (\<lambda>i item. Some item) (array_entries [''c'', ''a'', ''b'']) ([], [])
     = ([''c'', ''a'', ''b''], [(''c'', ''c'', 0), (''a'', ''a'', 1), (''b'', ''b'', 2)])
   \<and> distinct [''c'', ''a'', ''b'']
   \<and> set [''c'', ''a'', ''b''] = fst ` set (itemMap abc_rendered)
   \<and> distinct (children abc_rendered)
   \<and> itemMap (handleVFor_keyed (\<lambda>i item. Some item) (array_entries [''c'', ''a'', ''b''])
                 abc_rendered) = itemMap abc_rendered
   \<and> children (handleVFor_keyed (\<lambda>i item. Some item) (array_entries [''c'', ''a'', ''b''])
                  abc_rendered) = [3, 1, 2, 0]
   \<and> map_of (itemMap abc_rendered) ''c'' = Some (3, ''c'', 2)
   \<and> map_of (itemMap (handleVFor_keyed (\<lambda>i item. Some item)
                          (array_entries [''c'', ''a'', ''b'']) abc_rendered)) ''c''
       = Some (3, ''c'', 2)"
proof -
  let ?el = "\<lambda>k. if k = ''a'' then 1 else if k = ''b'' then 2 else (3 :: nat)"
  have h1: "buildNew (\<lambda>i item. Some item) (array_entries [''c'', ''a'', ''b'']) ([], [])
     = ([''c'', ''a'', ''b''], [(''c'', ''c'', 0), (''a'', ''a'', 1), (''b'', ''b'', 2)])"
    by code_simp
  have h2: "distinct [''c'', ''a'', ''b'']" by simp
  have h3: "set [''c'', ''a'', ''b''] = fst ` set (itemMap abc_rendered)"
    by (auto simp: abc_rendered_def)
  have h4: "\<forall>k \<in> set [''c'', ''a'', ''b'']. \<exists>d. map_of (itemMap abc_rendered) k = Some (?el k, d)"
    by (simp add: abc_rendered_def)
  have h5: "inj_on ?el (set [''c'', ''a'', ''b''])" by (simp add: inj_on_def)
  have h6: "?el ` set [''c'', ''a'', ''b''] \<subseteq> set (children abc_rendered)"
    by (simp add: abc_rendered_def)
  have h7: "distinct (children abc_rendered)" by (simp add: abc_rendered_def)
  note t = keyed_reorder_reuses[THEN conjunct2, THEN conjunct2, rule_format,
      of "\<lambda>i item. Some item" "array_entries [''c'', ''a'', ''b'']" "[''c'', ''a'', ''b'']" _
         abc_rendered ?el]
  have "itemMap (handleVFor_keyed (\<lambda>i item. Some item) (array_entries [''c'', ''a'', ''b''])
                 abc_rendered) = itemMap abc_rendered
      \<and> children (handleVFor_keyed (\<lambda>i item. Some item) (array_entries [''c'', ''a'', ''b''])
                  abc_rendered)
          = map ?el [''c'', ''a'', ''b'']
            @ filter (\<lambda>n. n \<notin> ?el ` set [''c'', ''a'', ''b'']) (children abc_rendered)"
    using t[OF conjI[OF h1 conjI[OF h2 conjI[OF h3 conjI[OF h4 conjI[OF h5 conjI[OF h6 h7]]]]]]]
    by blast
  then have "itemMap (handleVFor_keyed (\<lambda>i item. Some item) (array_entries [''c'', ''a'', ''b''])
                 abc_rendered) = itemMap abc_rendered
      \<and> children (handleVFor_keyed (\<lambda>i item. Some item) (array_entries [''c'', ''a'', ''b''])
                  abc_rendered) = [3, 1, 2, 0]"
    by (simp add: abc_rendered_def)
  moreover have row: "map_of (itemMap abc_rendered) ''c'' = Some (3, ''c'', 2)
      \<and> ''c'' \<in> set [''c'', ''a'', ''b'']"
    by (simp add: abc_rendered_def)
  moreover from keyed_reorder_reuses[THEN conjunct2, THEN conjunct1, rule_format, OF h1 row]
  have "map_of (itemMap (handleVFor_keyed (\<lambda>i item. Some item)
                          (array_entries [''c'', ''a'', ''b'']) abc_rendered)) ''c''
       = Some (3, ''c'', 2)" .
  ultimately show ?thesis using h1 h2 h3 h7 by blast
qed

end
